theory Spec2Isabelle
  imports Complex_Main
begin

section \<open>Linear programming solvers of opta2.py\<close>

text \<open>
  The program holds two solvers for maximise \<open>C\<^sup>T x\<close> subject to \<open>A x \<le> b\<close>:
  \<^verbatim>\<open>method\<close> (affine scaling, an interior-point iteration) and
  \<^verbatim>\<open>simplex_method_manual\<close> (tableau simplex).

  Numbers. The program computes on IEEE-754 doubles. The embedding computes on
  \<^typ>\<open>real\<close>: every arithmetic operation is exact, there is no rounding, overflow or
  underflow. The two special values a double has and a real has not are written out
  where the program can produce them: \<^verbatim>\<open>np.inf\<close> in the ratio list of the
  simplex is the constructor \<open>PInf\<close>, and the division by \<open>v = 0\<close> in
  \<^verbatim>\<open>method\<close> turns the iterate into an array of NaN entries, the iterate
  \<open>NaNs n\<close>.

  Arrays. A one-dimensional array is a \<^typ>\<open>real list\<close>, a two-dimensional array
  the list of its rows. An exception that numpy or Python raises is a value
  \<open>Inl e\<close>; a loop that runs forever is the value \<open>None\<close>. The report a solver
  prints when it ends is the outcome it returns in the model; the line
  \<^verbatim>\<open>print(123)\<close> inside the loop of \<^verbatim>\<open>method\<close> goes to a list of printed
  numbers.
\<close>

type_synonym vec = "real list"
type_synonym mat = "real list list"

datatype py_error = ValueError | IndexError | LinAlgError

subsection \<open>numpy operations\<close>

definition dot :: "vec \<Rightarrow> vec \<Rightarrow> real" where
  "dot u v = sum_list (map2 (*) u v)"

definition matvec :: "mat \<Rightarrow> vec \<Rightarrow> vec" where
  \<comment> \<open>\<^verbatim>\<open>M @ v\<close> for a 2-D \<open>M\<close> and a 1-D \<open>v\<close> of matching length\<close>
  "matvec M v = map (\<lambda>r. dot r v) M"

definition col :: "mat \<Rightarrow> nat \<Rightarrow> vec" where
  \<comment> \<open>\<^verbatim>\<open>M[:, j]\<close>\<close>
  "col M j = map (\<lambda>r. r ! j) M"

definition transpose_n :: "nat \<Rightarrow> mat \<Rightarrow> mat" where
  \<comment> \<open>\<^verbatim>\<open>M.T\<close> for \<open>M\<close> with \<open>n\<close> columns (a list of rows does not record the
      column count of a matrix with no row, so it is passed)\<close>
  "transpose_n n M = map (col M) [0..<n]"

definition matmul :: "mat \<Rightarrow> mat \<Rightarrow> nat \<Rightarrow> mat" where
  \<comment> \<open>\<^verbatim>\<open>X @ Y\<close> for 2-D arrays of matching inner dimension; \<open>p\<close> is the column
      count of \<open>Y\<close>\<close>
  "matmul X Y p = map (\<lambda>r. map (\<lambda>j. dot r (col Y j)) [0..<p]) X"

definition diag :: "vec \<Rightarrow> mat" where
  \<comment> \<open>\<^verbatim>\<open>np.diag(x)\<close> for a 1-D \<open>x\<close>\<close>
  "diag x = map (\<lambda>i. map (\<lambda>j. if i = j then x ! i else 0) [0..<length x]) [0..<length x]"

definition identity :: "nat \<Rightarrow> mat" where
  \<comment> \<open>\<^verbatim>\<open>np.identity(n)\<close>\<close>
  "identity n = map (\<lambda>i. map (\<lambda>j. if i = j then 1 else 0) [0..<n]) [0..<n]"

definition mat_sub :: "mat \<Rightarrow> mat \<Rightarrow> mat" where
  "mat_sub X Y = map2 (\<lambda>r s. map2 (-) r s) X Y"

definition norm2 :: "vec \<Rightarrow> real" where
  \<comment> \<open>\<^verbatim>\<open>np.linalg.norm(v, ord=2)\<close>\<close>
  "norm2 v = sqrt (sum_list (map (\<lambda>a. a * a) v))"

text \<open>
  \<^verbatim>\<open>np.linalg.inv\<close> in exact arithmetic: Gauss-Jordan elimination on the matrix
  extended by the identity. LAPACK raises the singular-matrix error (numpy's
  \<^verbatim>\<open>LinAlgError\<close>) when a column has no pivot; that is \<open>None\<close> here. The pivot
  taken is the first nonzero entry at or below the diagonal: in exact arithmetic the
  inverse does not depend on the choice.
\<close>

definition eliminate :: "nat \<Rightarrow> nat \<Rightarrow> mat \<Rightarrow> mat" where
  \<comment> \<open>bring row \<open>p\<close> to position \<open>k\<close>, scale it to a 1 in column \<open>k\<close>, clear column
      \<open>k\<close> in every other row\<close>
  "eliminate k p R =
     (let S = R[k := R ! p, p := R ! k];
          piv = map (\<lambda>a. a / (S ! k ! k)) (S ! k)
      in map (\<lambda>i. if i = k then piv
                   else map2 (\<lambda>a q. a - (S ! i ! k) * q) (S ! i) piv) [0..<length S])"

fun gauss_jordan :: "nat list \<Rightarrow> mat \<Rightarrow> mat option" where
  "gauss_jordan [] R = Some R"
| "gauss_jordan (k # ks) R =
     (case find (\<lambda>i. R ! i ! k \<noteq> 0) [k..<length R] of
        None \<Rightarrow> None
      | Some p \<Rightarrow> gauss_jordan ks (eliminate k p R))"

definition inv :: "mat \<Rightarrow> mat option" where
  "inv M =
     (let m = length M
      in map_option (map (drop m))
           (gauss_jordan [0..<m] (map2 (@) M (identity m))))"

subsection \<open>The interior-point solver: \<^verbatim>\<open>method\<close>\<close>

datatype method_outcome =
    NoSolution            \<comment> \<open>prints "The problem does not have solution"\<close>
  | NotApplicableInit     \<comment> \<open>prints "The method is not applicable"\<close>
  | NotApplicableGate     \<comment> \<open>prints "The method is not applicable!"\<close>
  | Converged vec real    \<comment> \<open>prints the solution \<open>x_star\<close> and the objective value\<close>

text \<open>Lines 18 to 25: the two nested loops over the rows and the values of \<open>A\<close>.\<close>

fun row_neg :: "bool \<Rightarrow> vec \<Rightarrow> bool" where
  "row_neg neg [] = neg"
| "row_neg neg (val # vals) = row_neg (if val > 0 then False else neg) vals"

fun rows_sol :: "bool \<Rightarrow> mat \<Rightarrow> bool" where
  "rows_sol sol [] = sol"
| "rows_sol sol (row # rows) = rows_sol (if row_neg True row then False else sol) rows"

text \<open>
  Lines 30 to 34: the loop over \<open>i\<close> in \<^verbatim>\<open>range(A.shape[0])\<close>, comparing
  \<^verbatim>\<open>bound[i]\<close> with \<^verbatim>\<open>b[i]\<close>. The result \<open>True\<close> is the early return;
  reading \<^verbatim>\<open>b[i]\<close> beyond the end of \<open>b\<close> raises.
\<close>

fun bound_exceeds :: "vec \<Rightarrow> vec \<Rightarrow> py_error + bool" where
  "bound_exceeds [] b = Inr False"
| "bound_exceeds (a # bound) [] = Inl IndexError"
| "bound_exceeds (a # bound) (bi # b) = (if a > bi then Inr True else bound_exceeds bound b)"

text \<open>
  The function \<^verbatim>\<open>method\<close> of the source is \<open>method_py\<close> here.
\<close>

text \<open>
  The array \<open>x\<close> of the loop: real entries, or \<open>n\<close> entries that are all NaN.
\<close>

datatype iterate = Finite vec | NaNs nat

text \<open>Lines 56 and 57: the count of passes is compared with 25, to print 123.\<close>

definition debug_print :: "nat \<Rightarrow> int list" where
  "debug_print counter = (if counter = 25 then [123] else [])"

text \<open>
  Lines 40 to 65: one pass through the body of the \<^verbatim>\<open>while\<close> loop, from a
  current \<open>x\<close> with real entries; \<open>counter\<close> is the count after line 39. The first
  component of a result is what lines 56 and 57 print. \<open>Inl r\<close> in the second
  component is a \<^verbatim>\<open>return\<close>, \<open>Inr x_star\<close> the assignment \<^verbatim>\<open>x = x_star\<close>
  that starts the next pass.

  When \<open>v = 0\<close> line 53 divides by zero. The least entry of \<open>c_p\<close> is 0, so
  \<open>x_tilda\<close> has the entry \<open>0 / 0\<close>, a NaN, and its other entries are NaN or
  infinite; every entry of \<open>D @ x_tilda\<close> is a sum with a term \<open>0 * NaN\<close> or
  \<open>x\<^sub>i * NaN\<close>, so \<open>x_star\<close> is all NaN. The test \<^verbatim>\<open>nan <= eps\<close> of line 59 is
  false, and line 65 makes the NaN array the next \<open>x\<close>.
\<close>

definition method_step_finite ::
  "real \<Rightarrow> real \<Rightarrow> vec \<Rightarrow> mat \<Rightarrow> vec \<Rightarrow> nat
     \<Rightarrow> py_error + (int list \<times> (method_outcome + iterate))" where
  "method_step_finite alpha eps C A x counter =
     (let n = length x; m = length A; D = diag x
      in if \<not> (\<forall>row \<in> set A. length row = n) then Inl ValueError
         else let A_tilda = matmul A D n
      in if length C \<noteq> n then Inl ValueError
         else let c_tilda = matvec D C;
                  A_rev = matmul A_tilda (transpose_n n A_tilda) m
      in case inv A_rev of
           None \<Rightarrow> Inl LinAlgError
         | Some A_inv \<Rightarrow>
             let mult = matmul (matmul (transpose_n n A_tilda) A_inv m) A_tilda n;
                 P = mat_sub (identity n) mult;
                 c_p = matvec P c_tilda
             in if c_p = [] then Inl ValueError
                else let minimum = min_list c_p
             in if minimum \<ge> 1 / 10 then Inr ([], Inl NotApplicableGate)
                else let v = \<bar>minimum\<bar>
             in if v = 0 then Inr (debug_print counter, Inr (NaNs n))
                else let x_tilda = map (\<lambda>c. 1 + alpha * c / v) c_p;
                         x_star = matvec D x_tilda
             in if norm2 (map2 (-) x_star x) \<le> eps
                then Inr (debug_print counter, Inl (Converged x_star (dot C x_star)))
                else Inr (debug_print counter, Inr (Finite x_star)))"

text \<open>
  A pass from an \<open>x\<close> of \<open>n\<close> NaN entries. The shapes are tested as before. Every
  entry of \<open>D\<close>'s diagonal is NaN, so every array computed from it is all NaN
  (\<^verbatim>\<open>np.linalg.inv\<close> raises on an exact zero pivot only, and returns NaN here);
  \<^verbatim>\<open>np.min\<close> of no entry raises. The tests \<^verbatim>\<open>nan >= 0.1\<close> and
  \<^verbatim>\<open>nan <= eps\<close> are false, so the pass ends with line 65 and \<open>x\<close> is all NaN again.
\<close>

definition method_step_nan ::
  "vec \<Rightarrow> mat \<Rightarrow> nat \<Rightarrow> nat \<Rightarrow> py_error + (int list \<times> (method_outcome + iterate))" where
  "method_step_nan C A n counter =
     (if \<not> (\<forall>row \<in> set A. length row = n) then Inl ValueError
      else if length C \<noteq> n then Inl ValueError
      else if n = 0 then Inl ValueError
      else Inr (debug_print counter, Inr (NaNs n)))"

definition method_step ::
  "real \<Rightarrow> real \<Rightarrow> vec \<Rightarrow> mat \<Rightarrow> iterate \<Rightarrow> nat
     \<Rightarrow> py_error + (int list \<times> (method_outcome + iterate))" where
  "method_step alpha eps C A x counter =
     (case x of
        Finite xs \<Rightarrow> method_step_finite alpha eps C A xs counter
      | NaNs n \<Rightarrow> method_step_nan C A n counter)"

text \<open>
  Lines 38 to 65: the loop. Line 39 counts the pass; \<open>printed\<close> is what the passes have
  printed so far. The result is that list and the exception or report that ends the
  loop. Line 66 is never reached.
\<close>

partial_function (option) method_loop ::
  "real \<Rightarrow> real \<Rightarrow> vec \<Rightarrow> mat \<Rightarrow> iterate \<Rightarrow> nat \<Rightarrow> int list
     \<Rightarrow> (int list \<times> (py_error + method_outcome)) option" where
  "method_loop alpha eps C A x counter printed =
     (case method_step alpha eps C A x (counter + 1) of
        Inl e \<Rightarrow> Some (printed, Inl e)
      | Inr (out, Inl r) \<Rightarrow> Some (printed @ out, Inr r)
      | Inr (out, Inr x_star) \<Rightarrow> method_loop alpha eps C A x_star (counter + 1) (printed @ out))"

definition method_py ::
  "vec \<Rightarrow> real \<Rightarrow> real \<Rightarrow> vec \<Rightarrow> vec \<Rightarrow> mat
     \<Rightarrow> (int list \<times> (py_error + method_outcome)) option" where
  "method_py x0 alpha eps b C A =
     (if \<not> rows_sol True A then Some ([], Inr NoSolution)
      else if \<not> (\<forall>row \<in> set A. length row = length x0) then Some ([], Inl ValueError)
      else case bound_exceeds (matvec A x0) b of
             Inl e \<Rightarrow> Some ([], Inl e)
           | Inr True \<Rightarrow> Some ([], Inr NotApplicableInit)
           | Inr False \<Rightarrow> method_loop alpha eps C A (Finite x0) 0 [])"

subsection \<open>The simplex solver: \<^verbatim>\<open>simplex_method_manual\<close>\<close>

text \<open>
  An entry of the list \<^verbatim>\<open>ratios\<close>: a quotient, or \<^verbatim>\<open>np.inf\<close>. The order is
  that of the doubles: every quotient is below \<^verbatim>\<open>np.inf\<close>.
\<close>

datatype ratio = Fin real | PInf

instantiation ratio :: linorder
begin

definition less_eq_ratio :: "ratio \<Rightarrow> ratio \<Rightarrow> bool" where
  "less_eq_ratio r s =
     (case s of PInf \<Rightarrow> True | Fin q \<Rightarrow> (case r of PInf \<Rightarrow> False | Fin p \<Rightarrow> p \<le> q))"

definition less_ratio :: "ratio \<Rightarrow> ratio \<Rightarrow> bool" where
  "less_ratio r s = (r \<le> s \<and> \<not> s \<le> r)"

instance
  by standard (auto simp: less_eq_ratio_def less_ratio_def split: ratio.splits)

end

text \<open>
  \<^verbatim>\<open>np.argmin\<close>: the index of the first occurrence of the minimum, found by a
  scan that keeps the best index so far and moves on a strictly smaller entry.
  On an empty sequence numpy raises \<^verbatim>\<open>ValueError\<close>.
\<close>

fun argmin_scan :: "'a::linorder list \<Rightarrow> nat \<Rightarrow> nat \<Rightarrow> 'a \<Rightarrow> nat" where
  "argmin_scan [] i best_i best = best_i"
| "argmin_scan (a # as) i best_i best =
     (if a < best then argmin_scan as (i + 1) i a else argmin_scan as (i + 1) best_i best)"

definition argmin :: "'a::linorder list \<Rightarrow> py_error + nat" where
  "argmin xs = (case xs of [] \<Rightarrow> Inl ValueError | a # as \<Rightarrow> Inr (argmin_scan as 1 0 a))"

text \<open>
  The value that the assignment \<^verbatim>\<open>tableau[:-1, :num_vars] = A\<close> of line 75
  writes, for a two-dimensional \<open>A\<close> and a target of \<open>m\<close> rows and \<open>n\<close> columns:
  numpy broadcasts \<open>A\<close> to the target's shape. A row count of 1 is repeated to \<open>m\<close>
  rows and a column count of 1 to \<open>n\<close> columns; any other row or column count must
  be that of the target, or numpy raises \<^verbatim>\<open>ValueError\<close>. (A list of rows of
  different lengths is not an array; an array with no row has no column count here
  and is taken to fit.)
\<close>

definition broadcast_to :: "nat \<Rightarrow> nat \<Rightarrow> mat \<Rightarrow> py_error + mat" where
  "broadcast_to m n A =
     (if A = [] then (if m = 0 then Inr [] else Inl ValueError)
      else let c = length (hd A)
      in if \<not> (\<forall>row \<in> set A. length row = c) then Inl ValueError
         else if \<not> (length A = m \<or> length A = 1) \<or> \<not> (c = n \<or> c = 1) then Inl ValueError
         else let rows = (if length A = m then A else replicate m (hd A))
              in Inr (map (\<lambda>row. if c = n then row else replicate n (hd row)) rows))"

text \<open>
  Lines 70 to 78: the tableau, \<open>num_constraints + 1\<close> rows of
  \<open>num_vars + num_constraints + 1\<close> entries.
\<close>

definition build_tableau :: "vec \<Rightarrow> mat \<Rightarrow> vec \<Rightarrow> py_error + mat" where
  "build_tableau C A b =
     (let num_vars = length C; num_constraints = length b
      in case broadcast_to num_constraints num_vars A of
           Inl e \<Rightarrow> Inl e
         | Inr A' \<Rightarrow>
             Inr (map (\<lambda>i. A' ! i @ identity num_constraints ! i @ [b ! i]) [0..<num_constraints]
                  @ [map uminus C @ replicate num_constraints 0 @ [0]]))"

text \<open>
  Lines 101 to 106: the pivot. The pivot row is divided by the pivot element in
  place, then every other row, the objective row too, is updated in place, in the
  order of the loop.
\<close>

definition pivot :: "nat \<Rightarrow> mat \<Rightarrow> nat \<Rightarrow> nat \<Rightarrow> mat" where
  "pivot num_constraints tableau pivot_row pivot_col =
     (let pivot_value = tableau ! pivot_row ! pivot_col;
          tableau1 = tableau[pivot_row := map (\<lambda>a. a / pivot_value) (tableau ! pivot_row)]
      in fold (\<lambda>i t. if i \<noteq> pivot_row
                       then t[i := map2 (\<lambda>a p. a - (t ! i ! pivot_col) * p) (t ! i) (t ! pivot_row)]
                       else t)
           [0..<num_constraints + 1] tableau1)"

text \<open>Lines 88 to 93: the ratio list.\<close>

definition ratios_of :: "nat \<Rightarrow> mat \<Rightarrow> nat \<Rightarrow> ratio list" where
  "ratios_of num_constraints tableau pivot_col =
     map (\<lambda>i. if tableau ! i ! pivot_col > 0
               then Fin (last (tableau ! i) / (tableau ! i ! pivot_col))
               else PInf) [0..<num_constraints]"

text \<open>
  Lines 82 to 106: one pass through the body of the \<^verbatim>\<open>while True\<close> loop.
  \<open>Optimal\<close> is the \<^verbatim>\<open>break\<close>, \<open>UnboundedStop\<close> the \<^verbatim>\<open>return\<close> after
  "The problem does not have a finite solution.", \<open>Pivoted t\<close> the tableau after
  the pivot, with which the next pass starts.
\<close>

datatype simplex_step_result = Optimal | UnboundedStop | Pivoted mat

definition simplex_step :: "nat \<Rightarrow> mat \<Rightarrow> py_error + simplex_step_result" where
  "simplex_step num_constraints tableau =
     (case argmin (butlast (last tableau)) of
        Inl e \<Rightarrow> Inl e
      | Inr pivot_col \<Rightarrow>
          if last tableau ! pivot_col \<ge> 0 then Inr Optimal
          else let ratios = ratios_of num_constraints tableau pivot_col
               in case argmin ratios of
                    Inl e \<Rightarrow> Inl e
                  | Inr pivot_row \<Rightarrow>
                      if ratios ! pivot_row = PInf then Inr UnboundedStop
                      else Inr (Pivoted (pivot num_constraints tableau pivot_row pivot_col)))"

text \<open>
  The loop. Its result is the final tableau (\<open>Some t\<close>, after the \<^verbatim>\<open>break\<close>) or
  \<open>None\<close> for the \<^verbatim>\<open>return\<close> on an unbounded problem.
\<close>

partial_function (option) simplex_loop ::
  "nat \<Rightarrow> mat \<Rightarrow> (py_error + mat option) option" where
  "simplex_loop num_constraints tableau =
     (case simplex_step num_constraints tableau of
        Inl e \<Rightarrow> Some (Inl e)
      | Inr Optimal \<Rightarrow> Some (Inr (Some tableau))
      | Inr UnboundedStop \<Rightarrow> Some (Inr None)
      | Inr (Pivoted t) \<Rightarrow> simplex_loop num_constraints t)"

text \<open>
  Lines 111 to 118: the extraction. \<^verbatim>\<open>basic_vars\<close> is the whole column \<open>j\<close>, the
  objective row included. \<open>is_basic\<close> is the test of line 115.
\<close>

definition is_basic :: "vec \<Rightarrow> bool" where
  "is_basic basic_vars \<longleftrightarrow>
     length (filter (\<lambda>a. a = 1) basic_vars) = 1 \<and> length (filter (\<lambda>a. a > 1) basic_vars) = 0"

fun first_index :: "('a \<Rightarrow> bool) \<Rightarrow> 'a list \<Rightarrow> nat" where
  \<comment> \<open>\<^verbatim>\<open>np.where(...)[0][0]\<close>, used only where an entry satisfies the test\<close>
  "first_index P [] = 0"
| "first_index P (a # as) = (if P a then 0 else Suc (first_index P as))"

definition extract_var :: "mat \<Rightarrow> nat \<Rightarrow> real" where
  "extract_var tableau j =
     (let basic_vars = col tableau j
      in if is_basic basic_vars
         then last (tableau ! first_index (\<lambda>a. a = 1) basic_vars)
         else 0)"

definition extract_solution :: "nat \<Rightarrow> mat \<Rightarrow> vec" where
  "extract_solution num_vars tableau = map (extract_var tableau) [0..<num_vars]"

datatype simplex_outcome =
    Solution vec real   \<comment> \<open>prints the optimal solution and the objective value\<close>
  | Unbounded           \<comment> \<open>prints "The problem does not have a finite solution."\<close>

definition simplex_method_manual ::
  "vec \<Rightarrow> mat \<Rightarrow> vec \<Rightarrow> (py_error + simplex_outcome) option" where
  "simplex_method_manual C A b =
     (case build_tableau C A b of
        Inl e \<Rightarrow> Some (Inl e)
      | Inr tableau \<Rightarrow>
          map_option
            (map_sum id
               (\<lambda>r. case r of
                      None \<Rightarrow> Unbounded
                    | Some t \<Rightarrow> Solution (extract_solution (length C) t) (last (last t))))
            (simplex_loop (length b) tableau))"

text \<open>
  The spec's words for a basic column: exactly one entry equal to 1 and every other
  entry equal to 0.
\<close>

definition spec_basic :: "vec \<Rightarrow> bool" where
  "spec_basic basic_vars \<longleftrightarrow>
     (\<exists>i < length basic_vars. basic_vars ! i = 1 \<and>
        (\<forall>k < length basic_vars. k \<noteq> i \<longrightarrow> basic_vars ! k = 0))"

subsection \<open>The solvers on a store of arrays\<close>

text \<open>
  A numpy array is an object: a caller and a function may hold the same array, and an
  in-place operation of the function is then visible to the caller. To state what
  the solvers do to their arguments, the arrays live in a store (a list of arrays; an
  array's address is its index, and a new array is put at the end) and the solvers
  take addresses. A pass of a loop is the same \<open>method_step\<close> and \<open>simplex_step\<close>
  as above, on the arrays read from the store.

  In \<^verbatim>\<open>method\<close> no statement writes into an existing array: every result is
  a new array, \<^verbatim>\<open>x = np.array(x0, dtype=float)\<close> is a copy of \<open>x0\<close>, and
  \<^verbatim>\<open>x = x_star\<close> rebinds the name \<open>x\<close> to the new array. In
  \<^verbatim>\<open>simplex_method_manual\<close> the in-place statements are the slice assignments of
  lines 75 to 78 and the row operations \<^verbatim>\<open>/=\<close> and \<^verbatim>\<open>-=\<close> of lines 102 and 106,
  all on \<open>tableau\<close>, which is the new array of \<^verbatim>\<open>np.zeros\<close>, and the assignments
  to \<open>solution\<close>, also new. Temporary arrays that no name keeps are not put in the
  store.
\<close>

datatype ndarray = Arr1 vec | Arr2 mat | NaN1 nat

type_synonym store = "ndarray list"

text \<open>
  Reading an argument: an array of the wrong dimension fails. The arguments of the
  model have real entries, so reading an argument from an all-NaN array (\<open>NaN1\<close>,
  which only the loop of \<^verbatim>\<open>method\<close> creates) fails too.
\<close>

definition read_vec :: "store \<Rightarrow> nat \<Rightarrow> py_error + vec" where
  "read_vec s r = (case s ! r of Arr1 v \<Rightarrow> Inr v | Arr2 M \<Rightarrow> Inl ValueError
                   | NaN1 n \<Rightarrow> Inl ValueError)"

definition read_mat :: "store \<Rightarrow> nat \<Rightarrow> py_error + mat" where
  "read_mat s r = (case s ! r of Arr2 M \<Rightarrow> Inr M | Arr1 v \<Rightarrow> Inl ValueError
                   | NaN1 n \<Rightarrow> Inl ValueError)"

definition read_problem :: "store \<Rightarrow> nat \<Rightarrow> nat \<Rightarrow> py_error + vec \<times> mat" where
  "read_problem s C_ref A_ref =
     (case read_vec s C_ref of Inl e \<Rightarrow> Inl e
      | Inr C \<Rightarrow> (case read_mat s A_ref of Inl e \<Rightarrow> Inl e | Inr A \<Rightarrow> Inr (C, A)))"

text \<open>The array \<open>x\<close> of the loop, read from and put in the store.\<close>

definition read_iterate :: "store \<Rightarrow> nat \<Rightarrow> py_error + iterate" where
  "read_iterate s r = (case s ! r of Arr1 v \<Rightarrow> Inr (Finite v) | NaN1 n \<Rightarrow> Inr (NaNs n)
                       | Arr2 M \<Rightarrow> Inl ValueError)"

definition array_of :: "iterate \<Rightarrow> ndarray" where
  "array_of x = (case x of Finite v \<Rightarrow> Arr1 v | NaNs n \<Rightarrow> NaN1 n)"

text \<open>
  The loop of \<^verbatim>\<open>method\<close>: \<open>x_ref\<close> is the array the name \<open>x\<close> is bound to. A pass
  that goes on puts \<open>x_star\<close> in the store and binds \<open>x\<close> to it.
\<close>

partial_function (option) method_loop_st ::
  "real \<Rightarrow> real \<Rightarrow> nat \<Rightarrow> nat \<Rightarrow> nat \<Rightarrow> nat \<Rightarrow> int list \<Rightarrow> store
     \<Rightarrow> ((int list \<times> (py_error + method_outcome)) \<times> store) option" where
  "method_loop_st alpha eps C_ref A_ref x_ref counter printed s =
     (case read_problem s C_ref A_ref of
        Inl e \<Rightarrow> Some ((printed, Inl e), s)
      | Inr (C, A) \<Rightarrow>
          (case read_iterate s x_ref of
             Inl e \<Rightarrow> Some ((printed, Inl e), s)
           | Inr x \<Rightarrow>
               (case method_step alpha eps C A x (counter + 1) of
                  Inl e \<Rightarrow> Some ((printed, Inl e), s)
                | Inr (out, Inl r) \<Rightarrow> Some ((printed @ out, Inr r), s)
                | Inr (out, Inr x_star) \<Rightarrow>
                    method_loop_st alpha eps C_ref A_ref (length s) (counter + 1) (printed @ out)
                      (s @ [array_of x_star]))))"

definition method_st ::
  "nat \<Rightarrow> real \<Rightarrow> real \<Rightarrow> nat \<Rightarrow> nat \<Rightarrow> nat \<Rightarrow> store
     \<Rightarrow> ((int list \<times> (py_error + method_outcome)) \<times> store) option" where
  "method_st x0_ref alpha eps b_ref C_ref A_ref s =
     (case read_mat s A_ref of
        Inl e \<Rightarrow> Some (([], Inl e), s)
      | Inr A \<Rightarrow>
          if \<not> rows_sol True A then Some (([], Inr NoSolution), s)
          else (case read_vec s x0_ref of
                  Inl e \<Rightarrow> Some (([], Inl e), s)
                | Inr x0 \<Rightarrow>
                    if \<not> (\<forall>row \<in> set A. length row = length x0)
                    then Some (([], Inl ValueError), s)
                    else (case read_vec s b_ref of
                            Inl e \<Rightarrow> Some (([], Inl e), s)
                          | Inr b \<Rightarrow>
                              (case bound_exceeds (matvec A x0) b of
                                 Inl e \<Rightarrow> Some (([], Inl e), s)
                               | Inr True \<Rightarrow> Some (([], Inr NotApplicableInit), s)
                               | Inr False \<Rightarrow>
                                   method_loop_st alpha eps C_ref A_ref (length s) 0 []
                                     (s @ [Arr1 x0])))))"

text \<open>
  The loop of \<^verbatim>\<open>simplex_method_manual\<close>: the pivot overwrites the array at
  \<open>t_ref\<close>. The result \<open>True\<close> is the \<^verbatim>\<open>break\<close>, \<open>False\<close> the \<^verbatim>\<open>return\<close>
  on an unbounded problem.
\<close>

partial_function (option) simplex_loop_st ::
  "nat \<Rightarrow> nat \<Rightarrow> store \<Rightarrow> ((py_error + bool) \<times> store) option" where
  "simplex_loop_st num_constraints t_ref s =
     (case read_mat s t_ref of
        Inl e \<Rightarrow> Some (Inl e, s)
      | Inr tableau \<Rightarrow>
          (case simplex_step num_constraints tableau of
             Inl e \<Rightarrow> Some (Inl e, s)
           | Inr Optimal \<Rightarrow> Some (Inr True, s)
           | Inr UnboundedStop \<Rightarrow> Some (Inr False, s)
           | Inr (Pivoted t) \<Rightarrow> simplex_loop_st num_constraints t_ref (s[t_ref := Arr2 t])))"


definition simplex_method_manual_st ::
  "nat \<Rightarrow> nat \<Rightarrow> nat \<Rightarrow> store \<Rightarrow> ((py_error + simplex_outcome) \<times> store) option" where
  "simplex_method_manual_st C_ref A_ref b_ref s =
     (case read_problem s C_ref A_ref of
        Inl e \<Rightarrow> Some (Inl e, s)
      | Inr (C, A) \<Rightarrow>
          (case read_vec s b_ref of
             Inl e \<Rightarrow> Some (Inl e, s)
           | Inr b \<Rightarrow>
               let t_ref = length s;
                   s1 = s @ [Arr2 (replicate (length b + 1)
                                     (replicate (length C + length b + 1) 0))]
               in (case build_tableau C A b of
                     Inl e \<Rightarrow> Some (Inl e, s1)
                   | Inr tableau \<Rightarrow>
                       (case simplex_loop_st (length b) t_ref (s1[t_ref := Arr2 tableau]) of
                          None \<Rightarrow> None
                        | Some (Inl e, s2) \<Rightarrow> Some (Inl e, s2)
                        | Some (Inr False, s2) \<Rightarrow> Some (Inr Unbounded, s2)
                        | Some (Inr True, s2) \<Rightarrow>
                            (case read_mat s2 t_ref of
                               Inl e \<Rightarrow> Some (Inl e, s2)
                             | Inr t \<Rightarrow>
                                 let solution = extract_solution (length C) t
                                 in Some (Inr (Solution solution (last (last t))),
                                          s2 @ [Arr1 solution]))))))"

section \<open>Properties\<close>

subsection \<open>Auxiliary facts about \<^verbatim>\<open>method\<close>\<close>

lemma row_neg_iff: "row_neg neg row \<longleftrightarrow> neg \<and> (\<forall>v \<in> set row. \<not> 0 < v)"
  by (induction row arbitrary: neg) auto

lemma rows_sol_iff: "rows_sol sol A \<longleftrightarrow> sol \<and> (\<forall>row \<in> set A. \<exists>v \<in> set row. 0 < v)"
  by (induction A arbitrary: sol) (auto simp: row_neg_iff)

lemma bound_exceeds_Inr:
  "length bound \<le> length b \<Longrightarrow>
   bound_exceeds bound b = Inr (\<exists>i < length bound. bound ! i > b ! i)"
proof (induction bound b rule: bound_exceeds.induct)
  case (3 a bound bi b)
  then show ?case by (auto simp: less_Suc_eq_0_disj)
qed auto

text \<open>Induction over the passes of a run of the loop that ends.\<close>

lemma method_loop_induct:
  assumes "method_loop alpha eps C A x k p = Some y"
      and "\<And>f alpha eps C A x k p y.
             (\<And>alpha eps C A x k p y. f alpha eps C A x k p = Some y \<Longrightarrow> P alpha eps C A x k p y) \<Longrightarrow>
             (case method_step alpha eps C A x (k + 1) of
                Inl e \<Rightarrow> Some (p, Inl e)
              | Inr (out, Inl r) \<Rightarrow> Some (p @ out, Inr r)
              | Inr (out, Inr x_star) \<Rightarrow> f alpha eps C A x_star (k + 1) (p @ out)) = Some y \<Longrightarrow>
             P alpha eps C A x k p y"
  shows "P alpha eps C A x k p y"
  by (rule method_loop.raw_induct[
        where xa = "((((((alpha, eps), C), A), x), k), p)" and y = y and P = P,
        unfolded prod.case, OF assms(2) assms(1)])

text \<open>One unfolding of the loop, by the result of the pass.\<close>

lemma method_loop_Inl:
  "method_step alpha eps C A x (k + 1) = Inl e \<Longrightarrow>
   method_loop alpha eps C A x k p = Some (p, Inl e)"
  by (subst method_loop.simps) simp

lemma method_loop_stop:
  "method_step alpha eps C A x (k + 1) = Inr (out, Inl r) \<Longrightarrow>
   method_loop alpha eps C A x k p = Some (p @ out, Inr r)"
  by (subst method_loop.simps) simp

lemma method_loop_continue:
  "method_step alpha eps C A x (k + 1) = Inr (out, Inr x_star) \<Longrightarrow>
   method_loop alpha eps C A x k p = method_loop alpha eps C A x_star (k + 1) (p @ out)"
  by (subst method_loop.simps) simp

text \<open>Whatever the loop returns is what some pass through its body returned.\<close>

lemma method_loop_stops_at_step:
  assumes "method_loop alpha eps C A x k p = Some y"
  shows "\<exists>x' k' out. method_step alpha eps C A x' k' =
              (case snd y of Inl e \<Rightarrow> Inl e | Inr r \<Rightarrow> Inr (out, Inl r))"
proof (rule method_loop_induct[OF assms,
        where P = "\<lambda>alpha eps C A x k p y. \<exists>x' k' out. method_step alpha eps C A x' k' =
              (case snd y of Inl e \<Rightarrow> Inl e | Inr r \<Rightarrow> Inr (out, Inl r))"], goal_cases)
  case (1 f alpha eps C A x k p y)
  show ?case
  proof (cases "method_step alpha eps C A x (k + 1)")
    case (Inl e)
    with 1(2) have "snd y = Inl e" by auto
    with Inl show ?thesis by (intro exI[of _ x] exI[of _ "k + 1"]) simp
  next
    case (Inr res)
    obtain out st where res: "res = (out, st)" by (cases res)
    show ?thesis
    proof (cases st)
      case (Inl r)
      with Inr res 1(2) have "snd y = Inr r" by auto
      with Inl Inr res show ?thesis
        by (intro exI[of _ x] exI[of _ "k + 1"] exI[of _ out]) simp
    next
      case st: (Inr x_star)
      with Inr res 1(2) have "f alpha eps C A x_star (k + 1) (p @ out) = Some y" by simp
      then show ?thesis by (rule 1(1))
    qed
  qed
qed

text \<open>
  A pass ends the loop with a report only at the applicability gate or with the
  convergence test met.
\<close>

lemma method_step_outcomes:
  assumes "method_step alpha eps C A x k = Inr (out, Inl r)"
  shows "r = NotApplicableGate
         \<or> (\<exists>xs x_star. x = Finite xs \<and> r = Converged x_star (dot C x_star)
                \<and> norm2 (map2 (-) x_star xs) \<le> eps)"
proof (cases x)
  case (Finite xs)
  with assms have "method_step_finite alpha eps C A xs k = Inr (out, Inl r)"
    by (simp add: method_step_def)
  then have "r = NotApplicableGate
         \<or> (\<exists>x_star. r = Converged x_star (dot C x_star) \<and> norm2 (map2 (-) x_star xs) \<le> eps)"
    unfolding method_step_finite_def Let_def
    by (auto split: if_splits option.splits)
  with Finite show ?thesis by blast
next
  case (NaNs n)
  with assms show ?thesis
    by (simp add: method_step_def method_step_nan_def split: if_splits)
qed

lemma method_loop_outcomes:
  assumes "method_loop alpha eps C A x k p = Some (p', Inr r)"
  shows "r = NotApplicableGate
         \<or> (\<exists>xs x_star. r = Converged x_star (dot C x_star)
                \<and> norm2 (map2 (-) x_star xs) \<le> eps)"
proof -
  obtain x' k' out where "method_step alpha eps C A x' k' = Inr (out, Inl r)"
    using method_loop_stops_at_step[OF assms] by auto
  from method_step_outcomes[OF this] show ?thesis by blast
qed

text \<open>The entries of \<open>A @ x0\<close> are the sums of products.\<close>

lemma dot_sum: "length r = length u \<Longrightarrow> dot r u = (\<Sum>j = 0..<length u. r ! j * u ! j)"
proof -
  assume l: "length r = length u"
  have "dot r u = sum_list (map (\<lambda>j. r ! j * u ! j) [0..<length u])"
    unfolding dot_def using l
    by (intro arg_cong[where f = sum_list] nth_equalityI) simp_all
  also have "\<dots> = (\<Sum>j = 0..<length u. r ! j * u ! j)"
    by (simp add: interv_sum_list_conv_sum_set_nat)
  finally show ?thesis .
qed

lemma matvec_nth:
  assumes "\<forall>row \<in> set A. length row = length x" and "i < length A"
  shows "matvec A x ! i = (\<Sum>j = 0..<length x. A ! i ! j * x ! j)"
proof -
  have "length (A ! i) = length x" using assms by simp
  then show ?thesis using assms(2) by (simp add: matvec_def dot_sum)
qed


subsection \<open>The applicability checks of \<^verbatim>\<open>method\<close>\<close>

text \<open>
  Claim C6. \<^verbatim>\<open>method\<close> reports "The problem does not have solution" exactly when
  some row of \<open>A\<close> has no strictly positive entry: a row without one is flagged,
  whatever the other arguments are, at once and before anything else is printed, and
  when every row has a strictly positive entry the call does not end with this
  report. The matrix \<open>[[-1, -2]]\<close> is flagged.
\<close>

theorem method_row_positivity:
  "(map_option snd (method_py x0 alpha eps b C A) = Some (Inr NoSolution)
      \<longleftrightarrow> (\<exists>row \<in> set A. \<forall>v \<in> set row. \<not> 0 < v))
   \<and> ((\<exists>row \<in> set A. \<forall>v \<in> set row. \<not> 0 < v)
        \<longrightarrow> method_py x0 alpha eps b C A = Some ([], Inr NoSolution))"
proof (cases "rows_sol True A")
  case True
  then have pos: "\<forall>row \<in> set A. \<exists>v \<in> set row. 0 < v"
    by (simp add: rows_sol_iff)
  have "method_py x0 alpha eps b C A \<noteq> Some (p, Inr NoSolution)" for p
    using True method_loop_outcomes[of alpha eps C A "Finite x0" 0 "[]" p NoSolution]
    by (auto simp: method_py_def split: sum.splits bool.splits)
  then have "map_option snd (method_py x0 alpha eps b C A) \<noteq> Some (Inr NoSolution)"
    by (cases "method_py x0 alpha eps b C A") auto
  with pos show ?thesis by auto
next
  case False
  then show ?thesis by (auto simp: method_py_def rows_sol_iff)
qed

theorem method_row_positivity_witness:
  "method_py [1, 1] (1 / 2) (1 / 1000) [1] [1, 1] [[- 1, - 2]] = Some ([], Inr NoSolution)
   \<and> map_option snd (method_py [1, 1] (1 / 2) (1 / 1000) [1] [1, 1] [[- 1, - 2]])
     = Some (Inr NoSolution)
   \<and> map_option snd (method_py [10, 10] (1 / 2) (1 / 1000) [4, 4] [3, 2] [[1, 0], [0, 1]])
     \<noteq> Some (Inr NoSolution)"
  using method_row_positivity[of "[1, 1]" "1 / 2" "1 / 1000" "[1]" "[1, 1]" "[[- 1, - 2]]"]
        method_row_positivity[of "[10, 10]" "1 / 2" "1 / 1000" "[4, 4]" "[3, 2]" "[[1, 0], [0, 1]]"]
  by simp

text \<open>
  Claim C7. Once the row test has passed, \<^verbatim>\<open>method\<close> computes \<open>A x0\<close>, the
  vector whose component \<open>i\<close> is the sum of the products \<open>A\<^sub>i\<^sub>j x0\<^sub>j\<close>, and
  reports "The method is not applicable" exactly when some component exceeds the
  entry of \<open>b\<close> at the same index; the call then ends at once, before the loop.
  When every component is at most that entry the test passes: the call does not
  end with this report, it is the run of the loop from \<open>x0\<close>. The comparison is
  the exact \<open>>\<close> of the code. The point \<open>[10, 10]\<close> with the identity matrix and
  \<open>b = [4, 4]\<close> is flagged.
\<close>

theorem method_initial_point:
  assumes "\<forall>row \<in> set A. \<exists>v \<in> set row. 0 < v"
      and "\<forall>row \<in> set A. length row = length x0"
      and "length A \<le> length b"
  shows "(map_option snd (method_py x0 alpha eps b C A) = Some (Inr NotApplicableInit)
           \<longleftrightarrow> (\<exists>i < length A. (\<Sum>j = 0..<length x0. A ! i ! j * x0 ! j) > b ! i))
       \<and> ((\<exists>i < length A. (\<Sum>j = 0..<length x0. A ! i ! j * x0 ! j) > b ! i)
             \<longrightarrow> method_py x0 alpha eps b C A = Some ([], Inr NotApplicableInit))
       \<and> ((\<forall>i < length A. (\<Sum>j = 0..<length x0. A ! i ! j * x0 ! j) \<le> b ! i)
             \<longrightarrow> method_py x0 alpha eps b C A = method_loop alpha eps C A (Finite x0) 0 [])"
proof -
  let ?ex = "\<exists>i < length A. (\<Sum>j = 0..<length x0. A ! i ! j * x0 ! j) > b ! i"
  have len: "length (matvec A x0) \<le> length b"
    using assms(3) by (simp add: matvec_def)
  have sol: "rows_sol True A"
    using assms(1) by (simp add: rows_sol_iff)
  have "bound_exceeds (matvec A x0) b = Inr (\<exists>i < length A. matvec A x0 ! i > b ! i)"
    using bound_exceeds_Inr[OF len] by (simp add: matvec_def)
  also have "(\<exists>i < length A. matvec A x0 ! i > b ! i) \<longleftrightarrow> ?ex"
    using matvec_nth[OF assms(2)] by auto
  finally have be: "bound_exceeds (matvec A x0) b = Inr ?ex" .
  show ?thesis
  proof (cases ?ex)
    case True
    with be have "bound_exceeds (matvec A x0) b = Inr True" by simp
    then have "method_py x0 alpha eps b C A = Some ([], Inr NotApplicableInit)"
      using sol assms(2) by (simp add: method_py_def)
    with True show ?thesis by auto
  next
    case False
    with be have "bound_exceeds (matvec A x0) b = Inr False" by simp
    then have eq: "method_py x0 alpha eps b C A = method_loop alpha eps C A (Finite x0) 0 []"
      using sol assms(2) by (simp add: method_py_def)
    have "method_py x0 alpha eps b C A \<noteq> Some (p, Inr NotApplicableInit)" for p
      using eq method_loop_outcomes[of alpha eps C A "Finite x0" 0 "[]" p NotApplicableInit]
      by auto
    then have "map_option snd (method_py x0 alpha eps b C A) \<noteq> Some (Inr NotApplicableInit)"
      by (cases "method_py x0 alpha eps b C A") auto
    with False eq show ?thesis by auto
  qed
qed


theorem method_initial_point_witness:
  "method_py [1, 1] (1 / 2) (1 / 1000) [4, 6] [3, 2] [[1, 2], [3, 4]]
     = Some ([], Inr NotApplicableInit)
   \<and> method_py [10, 10] (1 / 2) (1 / 1000) [4, 4] [3, 2] [[1, 0], [0, 1]]
     = Some ([], Inr NotApplicableInit)
   \<and> method_py [1, 1] (1 / 2) (1 / 1000) [3, 7] [3, 2] [[1, 2], [3, 4]]
     = method_loop (1 / 2) (1 / 1000) [3, 2] [[1, 2], [3, 4]] (Finite [1, 1]) 0 []
   \<and> map_option snd (method_py [1, 1] (1 / 2) (1 / 1000) [3, 7] [3, 2] [[1, 2], [3, 4]])
     \<noteq> Some (Inr NotApplicableInit)"
proof -
  let ?A = "[[1, 2], [3, 4 :: real]]"
  let ?I = "[[1, 0], [0, 1 :: real]]"
  have h1: "\<forall>row \<in> set ?A. \<exists>v \<in> set row. 0 < v" by simp
  have h2: "\<forall>row \<in> set ?A. length row = length [1, 1 :: real]" by simp
  have h3: "length ?A \<le> length [4, 6 :: real]" by simp
  have h3': "length ?A \<le> length [3, 7 :: real]" by simp
  have i1: "\<forall>row \<in> set ?I. \<exists>v \<in> set row. 0 < v" by simp
  have i2: "\<forall>row \<in> set ?I. length row = length [10, 10 :: real]" by simp
  have i3: "length ?I \<le> length [4, 4 :: real]" by simp
  have ex: "\<exists>i < length ?A. (\<Sum>j = 0..<length [1, 1 :: real]. ?A ! i ! j * [1, 1] ! j) > [4, 6] ! i"
    by (rule exI[of _ 1]) simp
  have exId: "\<exists>i < length ?I. (\<Sum>j = 0..<length [10, 10 :: real]. ?I ! i ! j * [10, 10] ! j) > [4, 4] ! i"
    by (rule exI[of _ 0]) simp
  have all: "\<forall>i < length ?A. (\<Sum>j = 0..<length [1, 1 :: real]. ?A ! i ! j * [1, 1] ! j) \<le> [3, 7] ! i"
    by (simp add: less_Suc_eq_0_disj)
  then have nex: "\<not> (\<exists>i < length ?A. (\<Sum>j = 0..<length [1, 1 :: real]. ?A ! i ! j * [1, 1] ! j) > [3, 7] ! i)"
    by (meson leD)
  have a: "method_py [1, 1] (1 / 2) (1 / 1000) [4, 6] [3, 2] ?A = Some ([], Inr NotApplicableInit)"
    using method_initial_point[OF h1 h2 h3, of "1 / 2" "1 / 1000" "[3, 2]"] ex by blast
  have b: "method_py [10, 10] (1 / 2) (1 / 1000) [4, 4] [3, 2] ?I = Some ([], Inr NotApplicableInit)"
    using method_initial_point[OF i1 i2 i3, of "1 / 2" "1 / 1000" "[3, 2]"] exId by blast
  have c: "method_py [1, 1] (1 / 2) (1 / 1000) [3, 7] [3, 2] ?A
             = method_loop (1 / 2) (1 / 1000) [3, 2] ?A (Finite [1, 1]) 0 []"
    using method_initial_point[OF h1 h2 h3', of "1 / 2" "1 / 1000" "[3, 2]"] all by blast
  have d: "map_option snd (method_py [1, 1] (1 / 2) (1 / 1000) [3, 7] [3, 2] ?A)
             \<noteq> Some (Inr NotApplicableInit)"
    using method_initial_point[OF h1 h2 h3', of "1 / 2" "1 / 1000" "[3, 2]"] nex by blast
  from a b c d show ?thesis by blast
qed

subsection \<open>Auxiliary facts about the simplex solver\<close>

text \<open>The scan returns the first index of a least entry.\<close>

lemma argmin_scan_first_min:
  "i = length pre \<Longrightarrow> best_i < i \<Longrightarrow> best = (pre @ as) ! best_i \<Longrightarrow>
   \<forall>j < i. best \<le> (pre @ as) ! j \<Longrightarrow> \<forall>j < best_i. best < (pre @ as) ! j \<Longrightarrow>
   argmin_scan as i best_i best < length (pre @ as) \<and>
   (\<forall>j < length (pre @ as). (pre @ as) ! argmin_scan as i best_i best \<le> (pre @ as) ! j) \<and>
   (\<forall>j < argmin_scan as i best_i best. (pre @ as) ! argmin_scan as i best_i best < (pre @ as) ! j)"
proof (induction as arbitrary: pre i best_i best)
  case Nil
  then show ?case by simp
next
  case (Cons a as)
  have ai: "(pre @ a # as) ! i = a" using Cons.prems(1) by simp
  have eq: "pre @ a # as = (pre @ [a]) @ as" by simp
  show ?case
  proof (cases "a < best")
    case True
    have "argmin_scan as (i + 1) i a < length ((pre @ [a]) @ as) \<and>
      (\<forall>j < length ((pre @ [a]) @ as). ((pre @ [a]) @ as) ! argmin_scan as (i + 1) i a \<le> ((pre @ [a]) @ as) ! j) \<and>
      (\<forall>j < argmin_scan as (i + 1) i a. ((pre @ [a]) @ as) ! argmin_scan as (i + 1) i a < ((pre @ [a]) @ as) ! j)"
    proof (rule Cons.IH)
      show "i + 1 = length (pre @ [a])" using Cons.prems(1) by simp
      show "i < i + 1" by simp
      show "a = ((pre @ [a]) @ as) ! i" using ai by simp
      show "\<forall>j < i + 1. a \<le> ((pre @ [a]) @ as) ! j"
      proof (intro allI impI)
        fix j assume "j < i + 1"
        then consider "j < i" | "j = i" by linarith
        then show "a \<le> ((pre @ [a]) @ as) ! j"
        proof cases
          case 1
          then have "best \<le> (pre @ a # as) ! j" using Cons.prems(4) by blast
          with True show ?thesis by simp
        next
          case 2
          then show ?thesis using ai by simp
        qed
      qed
      show "\<forall>j < i. a < ((pre @ [a]) @ as) ! j"
      proof (intro allI impI)
        fix j assume "j < i"
        then have "best \<le> (pre @ a # as) ! j" using Cons.prems(4) by blast
        with True show "a < ((pre @ [a]) @ as) ! j" by simp
      qed
    qed
    with True show ?thesis by simp
  next
    case False
    have "argmin_scan as (i + 1) best_i best < length ((pre @ [a]) @ as) \<and>
      (\<forall>j < length ((pre @ [a]) @ as). ((pre @ [a]) @ as) ! argmin_scan as (i + 1) best_i best \<le> ((pre @ [a]) @ as) ! j) \<and>
      (\<forall>j < argmin_scan as (i + 1) best_i best. ((pre @ [a]) @ as) ! argmin_scan as (i + 1) best_i best < ((pre @ [a]) @ as) ! j)"
    proof (rule Cons.IH)
      show "i + 1 = length (pre @ [a])" using Cons.prems(1) by simp
      show "best_i < i + 1" using Cons.prems(2) by simp
      show "best = ((pre @ [a]) @ as) ! best_i" using Cons.prems(3) by simp
      show "\<forall>j < i + 1. best \<le> ((pre @ [a]) @ as) ! j"
      proof (intro allI impI)
        fix j assume "j < i + 1"
        then consider "j < i" | "j = i" by linarith
        then show "best \<le> ((pre @ [a]) @ as) ! j"
        proof cases
          case 1
          then show ?thesis using Cons.prems(4) by simp
        next
          case 2
          then show ?thesis using ai False by simp
        qed
      qed
      show "\<forall>j < best_i. best < ((pre @ [a]) @ as) ! j"
        using Cons.prems(5) by simp
    qed
    with False show ?thesis by simp
  qed
qed

lemma argmin_Inr:
  assumes "xs \<noteq> []"
  shows "\<exists>k. argmin xs = Inr k \<and> k < length xs \<and> (\<forall>j < length xs. xs ! k \<le> xs ! j)
              \<and> (\<forall>j < k. xs ! k < xs ! j)"
proof -
  obtain a as where xs: "xs = a # as" using assms by (cases xs) auto
  have "argmin_scan as 1 0 a < length ([a] @ as) \<and>
        (\<forall>j < length ([a] @ as). ([a] @ as) ! argmin_scan as 1 0 a \<le> ([a] @ as) ! j) \<and>
        (\<forall>j < argmin_scan as 1 0 a. ([a] @ as) ! argmin_scan as 1 0 a < ([a] @ as) ! j)"
    by (rule argmin_scan_first_min) auto
  then show ?thesis by (simp add: xs argmin_def)
qed

lemma argmin_Nil: "argmin [] = Inl ValueError"
  by (simp add: argmin_def)

lemma argmin_InrD:
  assumes "argmin xs = Inr k"
  shows "k < length xs" "\<And>j. j < length xs \<Longrightarrow> xs ! k \<le> xs ! j" "\<And>j. j < k \<Longrightarrow> xs ! k < xs ! j"
proof -
  have ne: "xs \<noteq> []" using assms by (auto simp: argmin_def)
  from argmin_Inr[OF ne] assms
  have *: "k < length xs \<and> (\<forall>j < length xs. xs ! k \<le> xs ! j) \<and> (\<forall>j < k. xs ! k < xs ! j)"
    by auto
  show "k < length xs" using * by blast
  show "\<And>j. j < length xs \<Longrightarrow> xs ! k \<le> xs ! j" using * by blast
  show "\<And>j. j < k \<Longrightarrow> xs ! k < xs ! j" using * by blast
qed

lemma ratios_of_length: "length (ratios_of m t pc) = m"
  by (simp add: ratios_of_def)

lemma ratios_of_nth:
  "i < m \<Longrightarrow> ratios_of m t pc ! i =
     (if t ! i ! pc > 0 then Fin (last (t ! i) / (t ! i ! pc)) else PInf)"
  by (simp add: ratios_of_def)

lemma Fin_le_iff: "Fin p \<le> Fin q \<longleftrightarrow> p \<le> q"
  by (simp add: less_eq_ratio_def)

lemma Fin_less_iff: "Fin p < Fin q \<longleftrightarrow> p < q"
  by (auto simp: less_ratio_def less_eq_ratio_def)

lemma PInf_le_iff: "PInf \<le> r \<longleftrightarrow> r = PInf"
  by (cases r) (auto simp: less_eq_ratio_def)

lemma simplex_step_ratio:
  assumes pc: "argmin (butlast (last t)) = Inr pc"
      and neg: "last t ! pc < 0"
      and m: "0 < m"
  shows "((\<exists>i < m. 0 < t ! i ! pc) \<longrightarrow>
            (\<exists>r < m. simplex_step m t = Inr (Pivoted (pivot m t r pc))
                 \<and> 0 < t ! r ! pc
                 \<and> (\<forall>i < m. 0 < t ! i ! pc \<longrightarrow>
                        last (t ! r) / (t ! r ! pc) \<le> last (t ! i) / (t ! i ! pc))
                 \<and> (\<forall>i < r. 0 < t ! i ! pc \<longrightarrow>
                        last (t ! r) / (t ! r ! pc) < last (t ! i) / (t ! i ! pc))))
       \<and> ((\<forall>i < m. \<not> 0 < t ! i ! pc) \<longrightarrow>
            simplex_step m t = Inr UnboundedStop \<and> simplex_loop m t = Some (Inr None))"
proof -
  let ?rs = "ratios_of m t pc"
  have ne: "?rs \<noteq> []" using m by (simp add: ratios_of_def)
  obtain r where r: "argmin ?rs = Inr r" "r < length ?rs"
      "\<forall>j < length ?rs. ?rs ! r \<le> ?rs ! j" "\<forall>j < r. ?rs ! r < ?rs ! j"
    using argmin_Inr[OF ne] by blast
  have rm: "r < m" using r(2) by (simp add: ratios_of_length)
  have step: "simplex_step m t =
      (if ?rs ! r = PInf then Inr UnboundedStop else Inr (Pivoted (pivot m t r pc)))"
    using pc neg r(1) by (simp add: simplex_step_def Let_def)
  have part1: "\<exists>r < m. simplex_step m t = Inr (Pivoted (pivot m t r pc))
                 \<and> 0 < t ! r ! pc
                 \<and> (\<forall>i < m. 0 < t ! i ! pc \<longrightarrow>
                        last (t ! r) / (t ! r ! pc) \<le> last (t ! i) / (t ! i ! pc))
                 \<and> (\<forall>i < r. 0 < t ! i ! pc \<longrightarrow>
                        last (t ! r) / (t ! r ! pc) < last (t ! i) / (t ! i ! pc))"
    if ex: "\<exists>i < m. 0 < t ! i ! pc"
  proof -
    obtain i0 where i0: "i0 < m" "0 < t ! i0 ! pc" using ex by blast
    have "?rs ! r \<le> ?rs ! i0" using r(3) i0(1) by (simp add: ratios_of_length)
    then have "?rs ! r \<le> Fin (last (t ! i0) / (t ! i0 ! pc))"
      using i0 by (simp add: ratios_of_nth)
    then have fin: "?rs ! r \<noteq> PInf" by (auto simp: PInf_le_iff)
    then have pos: "0 < t ! r ! pc" using rm by (auto simp: ratios_of_nth split: if_splits)
    have rr: "?rs ! r = Fin (last (t ! r) / (t ! r ! pc))"
      using pos rm by (simp add: ratios_of_nth)
    have le: "\<forall>i < m. 0 < t ! i ! pc \<longrightarrow>
                last (t ! r) / (t ! r ! pc) \<le> last (t ! i) / (t ! i ! pc)"
    proof (intro allI impI)
      fix i assume i: "i < m" "0 < t ! i ! pc"
      have "?rs ! r \<le> ?rs ! i" using r(3) i(1) by (simp add: ratios_of_length)
      then show "last (t ! r) / (t ! r ! pc) \<le> last (t ! i) / (t ! i ! pc)"
        using i rr by (simp add: ratios_of_nth Fin_le_iff)
    qed
    have lt: "\<forall>i < r. 0 < t ! i ! pc \<longrightarrow>
                last (t ! r) / (t ! r ! pc) < last (t ! i) / (t ! i ! pc)"
    proof (intro allI impI)
      fix i assume i: "i < r" "0 < t ! i ! pc"
      have im: "i < m" using i(1) rm by simp
      have "?rs ! r < ?rs ! i" using r(4) i(1) by blast
      then show "last (t ! r) / (t ! r ! pc) < last (t ! i) / (t ! i ! pc)"
        using i im rr by (simp add: ratios_of_nth Fin_less_iff)
    qed
    from step fin have "simplex_step m t = Inr (Pivoted (pivot m t r pc))" by simp
    with rm pos le lt show ?thesis by blast
  qed
  have part2: "simplex_step m t = Inr UnboundedStop \<and> simplex_loop m t = Some (Inr None)"
    if all: "\<forall>i < m. \<not> 0 < t ! i ! pc"
  proof -
    have "?rs ! r = PInf" using all rm by (simp add: ratios_of_nth)
    with step have "simplex_step m t = Inr UnboundedStop" by simp
    then show ?thesis by (simp add: simplex_loop.simps)
  qed
  from part1 part2 show ?thesis by blast
qed


subsection \<open>The loop of the simplex solver\<close>

text \<open>
  Claim C8. On a tableau whose objective row (the last row without its right-hand
  side, at least one entry) has no negative entry, the first pass through the loop
  stops at the test of the entering variable, so no pivot is made, and the loop
  returns the tableau it was given: the solution extracted is that of this tableau.
\<close>

theorem simplex_optimal_no_pivot:
  assumes "butlast (last t) \<noteq> []"
      and "\<forall>a \<in> set (butlast (last t)). 0 \<le> a"
  shows "simplex_step m t = Inr Optimal \<and> simplex_loop m t = Some (Inr (Some t))"
proof -
  obtain k where k: "argmin (butlast (last t)) = Inr k" "k < length (butlast (last t))"
    using argmin_Inr[OF assms(1)] by blast
  have "last t ! k = butlast (last t) ! k" using k(2) by (simp add: nth_butlast)
  also have "\<dots> \<ge> 0" using assms(2) k(2) by simp
  finally have step: "simplex_step m t = Inr Optimal"
    using k(1) by (simp add: simplex_step_def)
  then show ?thesis by (simp add: simplex_loop.simps)
qed


theorem simplex_optimal_no_pivot_witness:
  "simplex_step 1 [[1, 1, 1, 3], [0, 1 / 2, 2, 6]] = Inr Optimal
   \<and> simplex_loop 1 [[1, 1, 1, 3], [0, 1 / 2, 2, 6]] = Some (Inr (Some [[1, 1, 1, 3], [0, 1 / 2, 2, 6]]))"
  using simplex_optimal_no_pivot[of "[[1, 1, 1, 3], [0, 1 / 2, 2, 6]]" 1] by simp

text \<open>
  Claim C9. In a pass that has an entering column \<open>pc\<close> (the objective entry there
  is negative) on a tableau with at least one constraint row: when some constraint
  row has a strictly positive entry in column \<open>pc\<close>, the pass pivots on a row \<open>r\<close>
  with a strictly positive entry whose ratio RHS / entry is the least among the rows
  with a strictly positive entry, and strictly less than that of every such row
  before it (the lowest index wins a tie); when no constraint row has a strictly
  positive entry, every ratio is infinite, the pass reports the problem unbounded
  and the loop stops without a pivot.
\<close>

theorem simplex_ratio_test:
  assumes "argmin (butlast (last t)) = Inr pc"
      and "last t ! pc < 0"
      and "0 < m"
  shows "((\<exists>i < m. 0 < t ! i ! pc) \<longrightarrow>
            (\<exists>r < m. simplex_step m t = Inr (Pivoted (pivot m t r pc))
                 \<and> 0 < t ! r ! pc
                 \<and> (\<forall>i < m. 0 < t ! i ! pc \<longrightarrow>
                        last (t ! r) / (t ! r ! pc) \<le> last (t ! i) / (t ! i ! pc))
                 \<and> (\<forall>i < r. 0 < t ! i ! pc \<longrightarrow>
                        last (t ! r) / (t ! r ! pc) < last (t ! i) / (t ! i ! pc))))
       \<and> ((\<forall>i < m. \<not> 0 < t ! i ! pc) \<longrightarrow>
            simplex_step m t = Inr UnboundedStop \<and> simplex_loop m t = Some (Inr None))"
  using assms by (rule simplex_step_ratio)

theorem simplex_ratio_test_witness:
  "simplex_step 3 [[1,0,1,0,0,4],[0,1,0,1,0,4],[1,1,0,0,1,5],[-3,-2,0,0,0,0]]
     = Inr (Pivoted (pivot 3 [[1,0,1,0,0,4],[0,1,0,1,0,4],[1,1,0,0,1,5],[-3,-2,0,0,0,0]] 0 0))
   \<and> simplex_step 1 [[-1, 0, 1, 1], [-1, -1, 0, 0]] = Inr UnboundedStop
   \<and> simplex_loop 1 [[-1, 0, 1, 1], [-1, -1, 0, 0]] = Some (Inr None)"
proof -
  let ?t = "[[1,0,1,0,0,4],[0,1,0,1,0,4],[1,1,0,0,1,5],[-3,-2,0,0,0,0::real]]"
  let ?u = "[[-1, 0, 1, 1], [-1, -1, 0, 0::real]]"
  have a1: "argmin (butlast (last ?t)) = Inr 0" by (simp add: argmin_def)
  have a2: "last ?t ! 0 < 0" by simp
  have a3: "(0::nat) < 3" by simp
  have ex: "\<exists>i < 3. 0 < ?t ! i ! 0" by (rule exI[of _ 0]) simp
  obtain r where r: "r < 3" "simplex_step 3 ?t = Inr (Pivoted (pivot 3 ?t r 0))"
      "0 < ?t ! r ! 0"
      "\<forall>i < 3. 0 < ?t ! i ! 0 \<longrightarrow> last (?t ! r) / (?t ! r ! 0) \<le> last (?t ! i) / (?t ! i ! 0)"
    using simplex_ratio_test[OF a1 a2 a3] ex by blast
  from r(1) consider "r = 0" | "r = 1" | "r = 2" by linarith
  then have "r = 0"
  proof cases
    case 2
    with r(3) show ?thesis by simp
  next
    case 3
    have "0 < (3::nat)" "0 < ?t ! 0 ! 0" by simp_all
    with r(4) have "last (?t ! r) / (?t ! r ! 0) \<le> last (?t ! 0) / (?t ! 0 ! 0)" by blast
    with 3 show ?thesis by simp
  qed simp
  with r(2) have p1: "simplex_step 3 ?t = Inr (Pivoted (pivot 3 ?t 0 0))" by simp
  have b1: "argmin (butlast (last ?u)) = Inr 0" by (simp add: argmin_def)
  have b2: "last ?u ! 0 < 0" by simp
  have b3: "(0::nat) < 1" by simp
  have b4: "\<forall>i < 1. \<not> 0 < ?u ! i ! 0" by simp
  have p2: "simplex_step 1 ?u = Inr UnboundedStop \<and> simplex_loop 1 ?u = Some (Inr None)"
    using simplex_ratio_test[OF b1 b2 b3] b4 by blast
  from p1 p2 show ?thesis by blast
qed


subsection \<open>Evaluation of the simplex solver on concrete problems\<close>

lemmas simplex_eval = simplex_method_manual_def build_tableau_def broadcast_to_def identity_def
  simplex_step_def argmin_def ratios_of_def pivot_def
  extract_solution_def extract_var_def is_basic_def col_def less_ratio_def less_eq_ratio_def

text \<open>
  Claim C1. The extraction does not test what the claim says. For maximise
  \<open>2 x\<^sub>1 + 1.5 x\<^sub>2\<close> subject to \<open>x\<^sub>1 + x\<^sub>2 \<le> 3\<close> the loop ends, after one pivot, with
  the tableau \<open>[[1, 1, 1, 3], [0, 0.5, 2, 6]]\<close>. Column 1 is \<open>[1, 0.5]\<close>: one entry is 1
  and the other is 0.5, not 0, so the column is not basic in the spec's words and
  the value of \<open>x\<^sub>2\<close> should be 0. The test of line 115 (one entry equal to 1, no entry
  greater than 1) accepts the column, and the solver returns \<open>x = [3, 3]\<close>, which
  violates the constraint.
\<close>

theorem extraction_accepts_non_unit_column:
  "simplex_loop 1 [[1, 1, 1, 3], [- 2, - (3 / 2), 0, 0]] = Some (Inr (Some [[1, 1, 1, 3], [0, 1 / 2, 2, 6]]))
   \<and> col [[1, 1, 1, 3], [0, 1 / 2, 2, 6]] 1 = [1, 1 / 2]
   \<and> \<not> spec_basic [1, 1 / 2]
   \<and> is_basic [1, 1 / 2]
   \<and> extract_var [[1, 1, 1, 3], [0, 1 / 2, 2, 6]] 1 = 3
   \<and> simplex_method_manual [2, 3 / 2] [[1, 1]] [3] = Some (Inr (Solution [3, 3] 6))"
proof -
  have "\<not> spec_basic [1, 1 / 2]"
    by (auto simp: spec_basic_def less_Suc_eq_0_disj)
  then show ?thesis
    by (simp add: simplex_eval simplex_loop.simps)
qed

theorem extraction_accepts_non_unit_column_witness:
  "simplex_method_manual [2, 3 / 2] [[1, 1]] [3] \<noteq> Some (Inr (Solution [3, 0] 6))"
  using extraction_accepts_non_unit_column by simp

subsection \<open>The right-hand side is not tested\<close>

text \<open>What a pass decides, in terms of the objective row and the entering column.\<close>

lemma simplex_step_decision:
  "simplex_step m t = Inr Optimal \<longleftrightarrow>
     (\<exists>pc. argmin (butlast (last t)) = Inr pc \<and> 0 \<le> last t ! pc)"
  "simplex_step m t = Inr UnboundedStop \<longleftrightarrow>
     (\<exists>pc. argmin (butlast (last t)) = Inr pc \<and> last t ! pc < 0 \<and> 0 < m
           \<and> (\<forall>i < m. \<not> 0 < t ! i ! pc))"
  "(\<exists>u. simplex_step m t = Inr (Pivoted u)) \<longleftrightarrow>
     (\<exists>pc. argmin (butlast (last t)) = Inr pc \<and> last t ! pc < 0
           \<and> (\<exists>i < m. 0 < t ! i ! pc))"
proof -
  have "(simplex_step m t = Inr Optimal \<longleftrightarrow>
     (\<exists>pc. argmin (butlast (last t)) = Inr pc \<and> 0 \<le> last t ! pc))
   \<and> (simplex_step m t = Inr UnboundedStop \<longleftrightarrow>
     (\<exists>pc. argmin (butlast (last t)) = Inr pc \<and> last t ! pc < 0 \<and> 0 < m
           \<and> (\<forall>i < m. \<not> 0 < t ! i ! pc)))
   \<and> ((\<exists>u. simplex_step m t = Inr (Pivoted u)) \<longleftrightarrow>
     (\<exists>pc. argmin (butlast (last t)) = Inr pc \<and> last t ! pc < 0
           \<and> (\<exists>i < m. 0 < t ! i ! pc)))"
  proof (cases "argmin (butlast (last t))")
    case (Inl e)
    then show ?thesis by (simp add: simplex_step_def)
  next
    case (Inr pc)
    show ?thesis
    proof (cases "0 \<le> last t ! pc")
      case True
      with Inr show ?thesis by (simp add: simplex_step_def)
    next
      case False
      then have neg: "last t ! pc < 0" by simp
      show ?thesis
      proof (cases "m = 0")
        case True
        with Inr neg show ?thesis
          by (simp add: simplex_step_def ratios_of_def argmin_def)
      next
        case False
        then have m: "0 < m" by simp
        show ?thesis
        proof (cases "\<exists>i < m. 0 < t ! i ! pc")
          case True
          from simplex_step_ratio[OF Inr neg m] True
          obtain r where "simplex_step m t = Inr (Pivoted (pivot m t r pc))" by blast
          with Inr neg True show ?thesis by auto
        next
          case False
          from simplex_step_ratio[OF Inr neg m] False
          have "simplex_step m t = Inr UnboundedStop" by blast
          with Inr neg m False show ?thesis by auto
        qed
      qed
    qed
  qed
  then show
    "simplex_step m t = Inr Optimal \<longleftrightarrow>
     (\<exists>pc. argmin (butlast (last t)) = Inr pc \<and> 0 \<le> last t ! pc)"
    "simplex_step m t = Inr UnboundedStop \<longleftrightarrow>
     (\<exists>pc. argmin (butlast (last t)) = Inr pc \<and> last t ! pc < 0 \<and> 0 < m
           \<and> (\<forall>i < m. \<not> 0 < t ! i ! pc))"
    "(\<exists>u. simplex_step m t = Inr (Pivoted u)) \<longleftrightarrow>
     (\<exists>pc. argmin (butlast (last t)) = Inr pc \<and> last t ! pc < 0
           \<and> (\<exists>i < m. 0 < t ! i ! pc))"
    by blast+
qed

text \<open>An array of the target's shape is written as it is.\<close>

lemma broadcast_to_same_shape:
  assumes "length A = m" and "\<forall>row \<in> set A. length row = n"
  shows "broadcast_to m n A = Inr A"
proof (cases "A = []")
  case True
  with assms show ?thesis by (simp add: broadcast_to_def)
next
  case False
  then have "hd A \<in> set A" by simp
  then have "length (hd A) = n" using assms(2) by blast
  with False assms show ?thesis by (simp add: broadcast_to_def)
qed

lemma build_tableau_Inr:
  assumes "length A = length b" and "\<forall>row \<in> set A. length row = length C"
  shows "build_tableau C A b =
           Inr (map (\<lambda>i. A ! i @ identity (length b) ! i @ [b ! i]) [0..<length b]
                @ [map uminus C @ replicate (length b) 0 @ [0]])"
  using broadcast_to_same_shape[OF assms] by (simp add: build_tableau_def Let_def)

text \<open>The pivot keeps the shape of the tableau.\<close>

lemma pivot_shape:
  assumes len: "length t = k" and rows: "\<forall>row \<in> set t. length row = w" and r: "r < k"
  shows "length (pivot m t r pc) = k \<and> (\<forall>row \<in> set (pivot m t r pc). length row = w)"
proof -
  let ?Q = "\<lambda>t :: mat. length t = k \<and> (\<forall>row \<in> set t. length row = w)"
  let ?f = "\<lambda>i (t :: mat). if i \<noteq> r then t[i := map2 (\<lambda>a p. a - (t ! i ! pc) * p) (t ! i) (t ! r)] else t"
  let ?t1 = "t[r := map (\<lambda>a. a / (t ! r ! pc)) (t ! r)]"
  have step: "?Q (?f i u)" if u: "?Q u" for i u
  proof (cases "i \<noteq> r \<and> i < k")
    case True
    have "u ! i \<in> set u" "u ! r \<in> set u" using True u r by simp_all
    then have l: "length (u ! i) = w" "length (u ! r) = w" using u by blast+
    have "set (u[i := map2 (\<lambda>a p. a - (u ! i ! pc) * p) (u ! i) (u ! r)])
            \<subseteq> insert (map2 (\<lambda>a p. a - (u ! i ! pc) * p) (u ! i) (u ! r)) (set u)"
      by (rule set_update_subset_insert)
    with l u True show ?thesis by auto
  next
    case False
    with u show ?thesis by (cases "i = r") (simp_all add: list_update_beyond)
  qed
  have "t ! r \<in> set t" using len r by simp
  then have "length (t ! r) = w" using rows by blast
  moreover have "set ?t1 \<subseteq> insert (map (\<lambda>a. a / (t ! r ! pc)) (t ! r)) (set t)"
    by (rule set_update_subset_insert)
  ultimately have "?Q ?t1" using len rows by auto
  moreover have "?Q (fold ?f xs u)" if "?Q u" for xs u
    using that
  proof (induction xs arbitrary: u)
    case Nil
    then show ?case by simp
  next
    case (Cons i xs)
    have "?Q (?f i u)" using Cons.prems by (rule step)
    then have "?Q (fold ?f xs (?f i u))" by (rule Cons.IH)
    then show ?case unfolding fold_simps comp_def .
  qed
  ultimately have "?Q (fold ?f [0..<m + 1] ?t1)" by blast
  then show ?thesis by (simp add: pivot_def Let_def)
qed

text \<open>
  On a tableau of \<open>m + 1\<close> rows of \<open>w\<close> entries, with at least one constraint and one
  column beside the right-hand side, a pass raises no exception, and a pivot yields
  a tableau of the same shape.
\<close>

lemma simplex_step_no_error:
  assumes len: "length t = m + 1" and rows: "\<forall>row \<in> set t. length row = w"
      and w: "2 \<le> w" and m: "0 < m"
  shows "\<exists>res. simplex_step m t = Inr res
           \<and> (\<forall>u. res = Pivoted u \<longrightarrow> length u = m + 1 \<and> (\<forall>row \<in> set u. length row = w))"
proof -
  have "t \<noteq> []" using len by auto
  then have "last t \<in> set t" by simp
  then have "length (last t) = w" using rows by blast
  then have "butlast (last t) \<noteq> []" using w by (auto simp: length_0_conv[symmetric] simp del: length_0_conv)
  then obtain pc where pc: "argmin (butlast (last t)) = Inr pc"
    using argmin_Inr by blast
  show ?thesis
  proof (cases "0 \<le> last t ! pc")
    case True
    with pc show ?thesis by (simp add: simplex_step_def)
  next
    case False
    have "ratios_of m t pc \<noteq> []" using m by (simp add: ratios_of_def)
    then obtain r where r: "argmin (ratios_of m t pc) = Inr r" "r < length (ratios_of m t pc)"
      using argmin_Inr by blast
    then have rm: "r < m + 1" by (simp add: ratios_of_length)
    from pivot_shape[OF len rows rm]
    have "length (pivot m t r pc) = m + 1 \<and> (\<forall>row \<in> set (pivot m t r pc). length row = w)" .
    with pc False r(1) show ?thesis by (simp add: simplex_step_def Let_def)
  qed
qed

lemma simplex_loop_no_error:
  assumes "simplex_loop m t = Some y"
  shows "length t = m + 1 \<and> (\<forall>row \<in> set t. length row = w) \<and> 2 \<le> w \<and> 0 < m
         \<longrightarrow> (\<exists>res. y = Inr res)"
proof (rule simplex_loop.raw_induct[
        where P = "\<lambda>m t y. length t = m + 1 \<and> (\<forall>row \<in> set t. length row = w) \<and> 2 \<le> w \<and> 0 < m
                     \<longrightarrow> (\<exists>res. y = Inr res)",
        OF _ assms], goal_cases)
  case (1 f m t y)
  show ?case
  proof (intro impI, elim conjE)
    assume sh: "length t = m + 1" "\<forall>row \<in> set t. length row = w" "2 \<le> w" "0 < m"
    from simplex_step_no_error[OF sh]
    obtain res where res: "simplex_step m t = Inr res"
       "\<forall>u. res = Pivoted u \<longrightarrow> length u = m + 1 \<and> (\<forall>row \<in> set u. length row = w)" by blast
    show "\<exists>res. y = Inr res"
    proof (cases res)
      case Optimal
      with res(1) 1(2) show ?thesis by auto
    next
      case UnboundedStop
      with res(1) 1(2) show ?thesis by auto
    next
      case (Pivoted u)
      with res(1) 1(2) have "f m u = Some y" by simp
      from 1(1)[OF this] res(2) Pivoted sh(3,4) show ?thesis by blast
    qed
  qed
qed

lemma simplex_method_manual_no_error:
  assumes "length A = length b" and "\<forall>row \<in> set A. length row = length C" and "b \<noteq> []"
  shows "simplex_method_manual C A b \<noteq> Some (Inl e)"
proof
  let ?t = "map (\<lambda>i. A ! i @ identity (length b) ! i @ [b ! i]) [0..<length b]
            @ [map uminus C @ replicate (length b) 0 @ [0]]"
  let ?w = "length C + length b + 1"
  assume a: "simplex_method_manual C A b = Some (Inl e)"
  have bt: "build_tableau C A b = Inr ?t" using assms(1,2) by (rule build_tableau_Inr)
  from a bt obtain y where y: "simplex_loop (length b) ?t = Some y"
    by (cases "simplex_loop (length b) ?t") (auto simp: simplex_method_manual_def)
  have len: "length ?t = length b + 1" by simp
  have rows: "\<forall>row \<in> set ?t. length row = ?w"
    using assms(1,2) by (auto simp: identity_def)
  have w: "2 \<le> ?w" and m: "0 < length b" using assms(3) by (simp_all add: Suc_le_eq)
  from simplex_loop_no_error[OF y, of ?w] len rows w m
  obtain res where "y = Inr res" by blast
  with a bt y show False by (simp add: simplex_method_manual_def)
qed

text \<open>
  Claim C4, as amended. The solver makes no test on \<open>b\<close>: an input whose right-hand
  side has a negative component is not rejected. For every \<open>A\<close> of one row per
  entry of \<open>b\<close> and one column per entry of \<open>C\<close>, and every \<open>b\<close> with at least one
  entry, whatever the signs of its components, the tableau is built (its rows are
  those of lines 75 to 78), the call is the run of the loop on this tableau, and the
  call does not end with an exception. What the first pass does (stop as optimal,
  report the problem unbounded, or pivot) is the same for \<open>b\<close> as for any other
  right-hand side \<open>b'\<close> of the same length, so it does not depend on the sign of any
  component of \<open>b\<close>.
\<close>

theorem simplex_no_rhs_check:
  assumes "length A = length b"
      and "\<forall>row \<in> set A. length row = length C"
      and "b \<noteq> []"
      and "length b' = length b"
  shows "\<exists>t t'. build_tableau C A b = Inr t \<and> build_tableau C A b' = Inr t'
           \<and> length t = length b + 1
           \<and> (\<forall>i < length b. t ! i = A ! i @ identity (length b) ! i @ [b ! i])
           \<and> last t = map uminus C @ replicate (length b) 0 @ [0]
           \<and> simplex_method_manual C A b =
               map_option
                 (map_sum id
                    (\<lambda>r. case r of
                           None \<Rightarrow> Unbounded
                         | Some u \<Rightarrow> Solution (extract_solution (length C) u) (last (last u))))
                 (simplex_loop (length b) t)
           \<and> simplex_method_manual C A b \<noteq> Some (Inl e)
           \<and> (simplex_step (length b) t = Inr Optimal
                \<longleftrightarrow> simplex_step (length b') t' = Inr Optimal)
           \<and> (simplex_step (length b) t = Inr UnboundedStop
                \<longleftrightarrow> simplex_step (length b') t' = Inr UnboundedStop)
           \<and> ((\<exists>u. simplex_step (length b) t = Inr (Pivoted u))
                \<longleftrightarrow> (\<exists>u. simplex_step (length b') t' = Inr (Pivoted u)))"
proof -
  let ?m = "length b"
  let ?T = "\<lambda>b :: vec. map (\<lambda>i. A ! i @ identity ?m ! i @ [b ! i]) [0..<?m]
                        @ [map uminus C @ replicate ?m 0 @ [0]]"
  have A': "length A = length b'" using assms(1,4) by simp
  have t: "build_tableau C A b = Inr (?T b)"
    using assms(1,2) by (rule build_tableau_Inr)
  have t': "build_tableau C A b' = Inr (?T b')"
    using build_tableau_Inr[OF A' assms(2)] assms(4) by simp
  have len: "length (?T b) = ?m + 1" by simp
  have row: "?T c ! i = A ! i @ identity ?m ! i @ [c ! i]" if "i < ?m" for i c
    using that by (simp add: nth_append)
  have last_row: "last (?T c) = map uminus C @ replicate ?m 0 @ [0]" for c
    by simp
  have run: "simplex_method_manual C A b =
               map_option
                 (map_sum id
                    (\<lambda>r. case r of
                           None \<Rightarrow> Unbounded
                         | Some u \<Rightarrow> Solution (extract_solution (length C) u) (last (last u))))
                 (simplex_loop ?m (?T b))"
    using t by (simp add: simplex_method_manual_def)
  have no_error: "simplex_method_manual C A b \<noteq> Some (Inl e)"
    using assms(1,2,3) by (rule simplex_method_manual_no_error)
  have entry: "?T b' ! i ! pc = ?T b ! i ! pc"
    if "argmin (butlast (last (?T b))) = Inr pc" "i < ?m" for i pc
  proof -
    have "pc < length (butlast (last (?T b)))" using that(1) by (rule argmin_InrD(1))
    then have pc: "pc < length C + ?m" by simp
    have "A ! i \<in> set A" using that(2) assms(1) by simp
    then have la: "length (A ! i) = length C" using assms(2) by blast
    have li: "length (identity ?m ! i) = ?m" using that(2) by (simp add: identity_def)
    have lt: "pc < length (A ! i @ identity ?m ! i)" using la li pc by simp
    have "?T c ! i ! pc = (A ! i @ identity ?m ! i) ! pc" for c
    proof -
      have "?T c ! i = (A ! i @ identity ?m ! i) @ [c ! i]"
        using row[OF that(2)] by simp
      then have "?T c ! i ! pc = ((A ! i @ identity ?m ! i) @ [c ! i]) ! pc"
        by (rule arg_cong)
      also have "\<dots> = (A ! i @ identity ?m ! i) ! pc"
        using lt by (rule nth_append_left)
      finally show ?thesis .
    qed
    then show ?thesis by simp
  qed
  have last_eq: "last (?T b') = last (?T b)" by simp
  have all_eq: "(\<forall>i < ?m. \<not> 0 < ?T b' ! i ! pc) \<longleftrightarrow> (\<forall>i < ?m. \<not> 0 < ?T b ! i ! pc)"
    if "argmin (butlast (last (?T b))) = Inr pc" for pc
    using entry[OF that] by simp
  have ex_eq: "(\<exists>i < ?m. 0 < ?T b' ! i ! pc) \<longleftrightarrow> (\<exists>i < ?m. 0 < ?T b ! i ! pc)"
    if "argmin (butlast (last (?T b))) = Inr pc" for pc
    using entry[OF that] by auto
  have dec: "(simplex_step ?m (?T b) = Inr Optimal
                \<longleftrightarrow> simplex_step (length b') (?T b') = Inr Optimal)
           \<and> (simplex_step ?m (?T b) = Inr UnboundedStop
                \<longleftrightarrow> simplex_step (length b') (?T b') = Inr UnboundedStop)
           \<and> ((\<exists>u. simplex_step ?m (?T b) = Inr (Pivoted u))
                \<longleftrightarrow> (\<exists>u. simplex_step (length b') (?T b') = Inr (Pivoted u)))"
    unfolding simplex_step_decision assms(4) last_eq
    using all_eq ex_eq by blast
  have rows: "\<forall>i < ?m. ?T b ! i = A ! i @ identity ?m ! i @ [b ! i]"
    using row by blast
  note facts = t t' len rows last_row[of b] run no_error dec
  show ?thesis
    by (rule exI[of _ "?T b"], rule exI[of _ "?T b'"]) (use facts in blast)
qed

text \<open>
  The claim as stated fails: for maximise \<open>x\<close> subject to \<open>x \<le> -1\<close> the solver does
  not reject the input. It pivots and returns \<open>x = [-1]\<close> with objective \<open>-1\<close>.
\<close>

theorem simplex_negative_rhs_counterexample:
  "simplex_method_manual [1] [[1]] [- 1] = Some (Inr (Solution [- 1] (- 1)))"
  by (simp add: simplex_eval simplex_loop.simps)

theorem simplex_no_rhs_check_witness:
  "build_tableau [1] [[1]] [- 1] = Inr [[1, 1, - 1], [- 1, 0, 0]]
   \<and> simplex_method_manual [1] [[1]] [- 1] \<noteq> Some (Inl ValueError)
   \<and> (\<exists>u. simplex_step 1 [[1, 1, - 1], [- 1, 0, 0]] = Inr (Pivoted u))"
proof -
  have h1: "length [[1 :: real]] = length [- 1 :: real]" by simp
  have h2: "\<forall>row \<in> set [[1 :: real]]. length row = length [1 :: real]" by simp
  have h3: "[- 1 :: real] \<noteq> []" by simp
  have h4: "length [1 :: real] = length [- 1 :: real]" by simp
  have bt: "build_tableau [1] [[1]] [- 1] = Inr [[1, 1, - 1], [- 1, 0, 0]]"
    by (simp add: build_tableau_def broadcast_to_def identity_def)
  have bt': "build_tableau [1] [[1]] [1] = Inr [[1, 1, 1], [- 1, 0, 0]]"
    by (simp add: build_tableau_def broadcast_to_def identity_def)
  have "simplex_step 1 [[1, 1, 1], [- 1, 0, 0]] = Inr (Pivoted (pivot 1 [[1, 1, 1], [- 1, 0, 0]] 0 0))"
    by (simp add: simplex_step_def argmin_def ratios_of_def)
  then have p: "\<exists>u. simplex_step (length [1 :: real]) [[1, 1, 1], [- 1, 0, 0]] = Inr (Pivoted u)"
    by simp
  from simplex_no_rhs_check[OF h1 h2 h3 h4, of ValueError]
  obtain t t' where
        t: "build_tableau [1] [[1]] [- 1] = Inr t"
    and t': "build_tableau [1] [[1]] [1] = Inr t'"
    and ne: "simplex_method_manual [1] [[1]] [- 1] \<noteq> Some (Inl ValueError)"
    and pv: "(\<exists>u. simplex_step (length [- 1 :: real]) t = Inr (Pivoted u))
                \<longleftrightarrow> (\<exists>u. simplex_step (length [1 :: real]) t' = Inr (Pivoted u))"
    by blast
  from t bt have "t = [[1, 1, - 1], [- 1, 0, 0]]" by simp
  moreover from t' bt' have "t' = [[1, 1, 1], [- 1, 0, 0]]" by simp
  ultimately have "\<exists>u. simplex_step 1 [[1, 1, - 1], [- 1, 0, 0]] = Inr (Pivoted u)"
    using pv p by simp
  with bt ne show ?thesis by blast
qed

subsection \<open>The iteration of \<^verbatim>\<open>method\<close>\<close>

text \<open>The convergence test without the square root, for evaluation.\<close>

lemma norm2_le_iff:
  "norm2 v \<le> e \<longleftrightarrow> 0 \<le> e \<and> sum_list (map (\<lambda>a. a * a) v) \<le> e * e"
proof -
  let ?s = "sum_list (map (\<lambda>a. a * a) v)"
  have nn: "0 \<le> ?s" by (rule sum_list_nonneg) auto
  show ?thesis
  proof (cases "0 \<le> e")
    case True
    have "sqrt ?s \<le> e \<longleftrightarrow> ?s \<le> e\<^sup>2"
      using True nn by (metis real_sqrt_le_iff real_sqrt_abs abs_of_nonneg)
    then show ?thesis using True by (simp add: norm2_def power2_eq_square)
  next
    case False
    have "0 \<le> sqrt ?s" using nn by simp
    with False have "\<not> sqrt ?s \<le> e" by linarith
    with False show ?thesis by (simp add: norm2_def)
  qed
qed

lemmas method_eval = method_step_def method_step_finite_def method_step_nan_def debug_print_def
  inv_def identity_def eliminate_def diag_def matmul_def
  matvec_def transpose_n_def col_def dot_def mat_sub_def Let_def norm2_le_iff

lemma method_step_singular:
  assumes "\<forall>row \<in> set A. length row = length x"
      and "length C = length x"
      and "inv (matmul (matmul A (diag x) (length x))
                 (transpose_n (length x) (matmul A (diag x) (length x))) (length A)) = None"
  shows "method_step alpha eps C A (Finite x) k = Inl LinAlgError"
  using assms by (simp add: method_step_def method_step_finite_def Let_def)

text \<open>
  Claim C2, as amended. When \<^verbatim>\<open>np.linalg.inv\<close> finds the matrix
  \<open>A_tilda A_tilda\<^sup>T\<close> singular it raises \<^verbatim>\<open>LinAlgError\<close>; \<^verbatim>\<open>method\<close> has no
  handler, so the pass and the whole loop end at once with that exception, without a
  retry, and no status is returned. The first two hypotheses are the shapes numpy
  needs to reach the inversion.
\<close>

theorem method_singular_raises:
  assumes "\<forall>row \<in> set A. length row = length x"
      and "length C = length x"
      and "inv (matmul (matmul A (diag x) (length x))
                 (transpose_n (length x) (matmul A (diag x) (length x))) (length A)) = None"
  shows "method_step alpha eps C A (Finite x) (counter + 1) = Inl LinAlgError
       \<and> method_loop alpha eps C A (Finite x) counter printed = Some (printed, Inl LinAlgError)"
proof -
  have "method_step alpha eps C A (Finite x) (counter + 1) = Inl LinAlgError"
    using assms by (rule method_step_singular)
  then show ?thesis by (simp add: method_loop_Inl)
qed

text \<open>
  The claim as stated fails: on the spec's own example (three constraints, two
  variables, so the 3 by 3 matrix has rank 2) the call ends with the exception of
  \<^verbatim>\<open>np.linalg.inv\<close>, not with a returned status.
\<close>

theorem method_singular_counterexample:
  "method_py [1, 1] (1 / 2) (1 / 1000000) [4, 4, 5] [3, 2] [[1, 0], [0, 1], [1, 1]]
     = Some ([], Inl LinAlgError)"
proof -
  have "method_step (1 / 2) (1 / 1000000) [3, 2] [[1, 0], [0, 1], [1, 1]] (Finite [1, 1]) (0 + 1)
          = Inl LinAlgError"
    by (simp add: method_eval)
  then have "method_loop (1 / 2) (1 / 1000000) [3, 2] [[1, 0], [0, 1], [1, 1]] (Finite [1, 1]) 0 []
               = Some ([], Inl LinAlgError)"
    by (rule method_loop_Inl)
  then show ?thesis by (simp add: method_py_def matvec_def dot_def)
qed

theorem method_singular_raises_witness:
  "method_step (1 / 2) (1 / 1000000) [1, 1] [[1, 1], [1, 1]] (Finite [1, 1]) (0 + 1) = Inl LinAlgError
   \<and> method_loop (1 / 2) (1 / 1000000) [1, 1] [[1, 1], [1, 1]] (Finite [1, 1]) 0 []
       = Some ([], Inl LinAlgError)"
proof -
  have h1: "\<forall>row \<in> set [[1, 1], [1, 1 :: real]]. length row = length [1, 1 :: real]" by simp
  have h2: "length [1, 1 :: real] = length [1, 1 :: real]" by simp
  have h3: "inv (matmul (matmul [[1, 1], [1, 1]] (diag [1, 1]) (length [1, 1 :: real]))
                 (transpose_n (length [1, 1 :: real]) (matmul [[1, 1], [1, 1]] (diag [1, 1]) (length [1, 1 :: real])))
                 (length [[1, 1], [1, 1 :: real]])) = None"
    by (simp add: method_eval)
  show ?thesis using method_singular_raises[OF h1 h2 h3] by blast
qed

text \<open>
  A run never ends when every pass from an iterate with the property \<open>I\<close> goes on
  with an iterate that has the property again.
\<close>

lemma method_loop_diverges:
  assumes step: "\<And>x k. I x \<Longrightarrow> \<exists>out x'. method_step alpha eps C A x k = Inr (out, Inr x') \<and> I x'"
      and x: "I x"
  shows "method_loop alpha eps C A x k p = None"
proof (cases "method_loop alpha eps C A x k p")
  case None
  then show ?thesis .
next
  case (Some y)
  have "alpha' = alpha \<and> eps' = eps \<and> C' = C \<and> A' = A \<longrightarrow> \<not> I x'"
    if "method_loop alpha' eps' C' A' x' k' p' = Some y'" for alpha' eps' C' A' x' k' p' y'
  proof (rule method_loop_induct[OF that,
      where P = "\<lambda>alpha' eps' C' A' x' k' p' y'.
                   alpha' = alpha \<and> eps' = eps \<and> C' = C \<and> A' = A \<longrightarrow> \<not> I x'"], goal_cases)
    case (1 f a e c m x k p y)
    show ?case
    proof (intro impI notI, elim conjE)
      assume par: "a = alpha" "e = eps" "c = C" "m = A" and i: "I x"
      from step[OF i, of "k + 1"] obtain out x' where
        s: "method_step alpha eps C A x (k + 1) = Inr (out, Inr x')" and i': "I x'" by blast
      from 1(2) s par have "f a e c m x' (k + 1) (p @ out) = Some y" by simp
      from 1(1)[OF this] par i' show False by blast
    qed
  qed
  from this[OF Some] x show ?thesis by blast
qed

text \<open>From an iterate of NaN entries the loop goes on forever.\<close>

lemma method_loop_nan:
  assumes "\<forall>row \<in> set A. length row = n" and "length C = n" and "0 < n"
  shows "method_loop alpha eps C A (NaNs n) k p = None"
proof (rule method_loop_diverges[where I = "\<lambda>x. x = NaNs n"])
  show "\<exists>out x'. method_step alpha eps C A x k = Inr (out, Inr x') \<and> x' = NaNs n"
    if "x = NaNs n" for x k
    using that assms by (simp add: method_step_def method_step_nan_def)
qed simp

text \<open>
  Claim C5. For maximise \<open>x\<close> subject to \<open>x \<le> 2\<close> from \<open>x0 = [1]\<close> with
  \<open>\<alpha> = 0.5\<close>, the projection matrix is zero, so \<open>c_p = [0]\<close>, \<open>minimum = 0\<close>
  passes the gate \<open>minimum \<ge> 0.1\<close>, and \<open>v = 0\<close>: line 53 divides by zero and the
  next iterate is NaN, not a strictly positive vector. The loop goes on from the
  NaN iterate and the call never returns.
\<close>

theorem method_zero_reduced_cost_nan:
  "method_step (1 / 2) (1 / 1000000) [1] [[1]] (Finite [1]) 1 = Inr ([], Inr (NaNs 1))
   \<and> method_py [1] (1 / 2) (1 / 1000000) [2] [1] [[1]] = None"
proof -
  have s: "method_step (1 / 2) (1 / 1000000) [1] [[1]] (Finite [1]) 1 = Inr ([], Inr (NaNs 1))"
    by (simp add: method_eval)
  then have s': "method_step (1 / 2) (1 / 1000000) [1] [[1]] (Finite [1]) (0 + 1)
                   = Inr ([], Inr (NaNs 1))"
    by simp
  have "method_loop (1 / 2) (1 / 1000000) [1] [[1]] (NaNs 1) (0 + 1) ([] @ []) = None"
    by (rule method_loop_nan) simp_all
  then have "method_loop (1 / 2) (1 / 1000000) [1] [[1]] (Finite [1]) 0 [] = None"
    using method_loop_continue[OF s', of "[]"] by simp
  then have "method_py [1] (1 / 2) (1 / 1000000) [2] [1] [[1]] = None"
    by (simp add: method_py_def matvec_def dot_def)
  with s show ?thesis by simp
qed

theorem method_zero_reduced_cost_nan_witness:
  "method_step (1 / 2) (1 / 1000000) [1] [[1]] (Finite [1]) 1 \<noteq> Inr ([], Inr (Finite [1]))
   \<and> method_py [1] (1 / 2) (1 / 1000000) [2] [1] [[1]] \<noteq> Some ([], Inr (Converged [1] 1))"
  using method_zero_reduced_cost_nan by simp

text \<open>
  The division by \<open>v = 0\<close> is the only way to lose positivity: from a strictly
  positive \<open>x\<close>, with a step size in \<open>(0, 1)\<close>, a pass that divides by a nonzero
  \<open>v\<close> has a strictly positive candidate \<open>x_star\<close>.
\<close>

lemma matvec_diag:
  assumes "length u = length x"
  shows "matvec (diag x) u = map2 (*) x u"
proof (rule nth_equalityI)
  show "length (matvec (diag x) u) = length (map2 (*) x u)"
    using assms by (simp add: matvec_def diag_def)
next
  fix i assume "i < length (matvec (diag x) u)"
  then have i: "i < length x" by (simp add: matvec_def diag_def)
  have "matvec (diag x) u ! i = dot (map (\<lambda>j. if i = j then x ! i else 0) [0..<length x]) u"
    using i by (simp add: matvec_def diag_def)
  also have "\<dots> = (\<Sum>j = 0..<length u. (if i = j then x ! i else 0) * u ! j)"
  proof -
    have "dot (map (\<lambda>j. if i = j then x ! i else 0) [0..<length x]) u
            = (\<Sum>j = 0..<length u. map (\<lambda>j. if i = j then x ! i else 0) [0..<length x] ! j * u ! j)"
      using assms by (intro dot_sum) simp
    also have "\<dots> = (\<Sum>j = 0..<length u. (if i = j then x ! i else 0) * u ! j)"
      using assms by (intro sum.cong) simp_all
    finally show ?thesis .
  qed
  also have "\<dots> = (\<Sum>j = 0..<length u. if j = i then x ! i * u ! i else 0)"
    by (intro sum.cong) auto
  also have "\<dots> = x ! i * u ! i"
    using i assms by simp
  finally show "matvec (diag x) u ! i = map2 (*) x u ! i"
    using i assms by simp
qed

lemma x_tilda_positive:
  fixes alpha :: real
  assumes a: "0 < alpha" "alpha < 1" and cp: "c \<in> set c_p" and v: "\<bar>min_list c_p\<bar> \<noteq> 0"
  shows "0 < 1 + alpha * c / \<bar>min_list c_p\<bar>"
proof -
  have ne: "c_p \<noteq> []" using cp by auto
  have le: "min_list c_p \<le> c"
    using cp ne by (simp add: min_list_Min)
  let ?v = "\<bar>min_list c_p\<bar>"
  have vpos: "0 < ?v" using v by simp
  have "- ?v \<le> min_list c_p" by simp
  with le have "- ?v \<le> c" by linarith
  then have "- 1 \<le> c / ?v" using vpos by (simp add: pos_le_divide_eq)
  then have "alpha * (- 1) \<le> alpha * (c / ?v)"
    using a(1) by (intro mult_left_mono) simp_all
  then have "- alpha \<le> alpha * c / ?v" by simp
  with a(2) show ?thesis by linarith
qed

lemma method_step_x_star:
  assumes "method_step alpha eps C A (Finite x) k = Inr (out, Inr (Finite x_star))
           \<or> method_step alpha eps C A (Finite x) k = Inr (out, Inl (Converged x_star obj))"
  shows "\<exists>c_p. length c_p = length x \<and> \<bar>min_list c_p\<bar> \<noteq> 0
           \<and> x_star = matvec (diag x) (map (\<lambda>c. 1 + alpha * c / \<bar>min_list c_p\<bar>) c_p)"
proof -
  let ?n = "length x"
  let ?At = "matmul A (diag x) ?n"
  from assms obtain A_inv where
    inv: "inv (matmul ?At (transpose_n ?n ?At) (length A)) = Some A_inv"
    unfolding method_step_def iterate.case method_step_finite_def Let_def
    by (auto split: if_splits option.splits)
  let ?cp = "matvec (mat_sub (identity ?n)
                (matmul (matmul (transpose_n ?n ?At) A_inv (length A)) ?At ?n))
              (matvec (diag x) C)"
  have len: "length ?cp = ?n"
    by (simp add: matvec_def mat_sub_def identity_def matmul_def transpose_n_def)
  from assms inv have "\<bar>min_list ?cp\<bar> \<noteq> 0
      \<and> x_star = matvec (diag x) (map (\<lambda>c. 1 + alpha * c / \<bar>min_list ?cp\<bar>) ?cp)"
    unfolding method_step_def iterate.case method_step_finite_def Let_def
    by (auto split: if_splits)
  with len show ?thesis by blast
qed

lemma method_step_positive:
  assumes pos: "\<forall>a \<in> set x. 0 < a" and a: "0 < alpha" "alpha < 1"
      and st: "method_step alpha eps C A (Finite x) k = Inr (out, Inr (Finite x_star))
           \<or> method_step alpha eps C A (Finite x) k = Inr (out, Inl (Converged x_star obj))"
  shows "length x_star = length x \<and> (\<forall>a \<in> set x_star. 0 < a)"
proof -
  from method_step_x_star[OF st] obtain c_p where
    len: "length c_p = length x" and v: "\<bar>min_list c_p\<bar> \<noteq> 0"
    and xs: "x_star = matvec (diag x) (map (\<lambda>c. 1 + alpha * c / \<bar>min_list c_p\<bar>) c_p)"
    by blast
  let ?xt = "map (\<lambda>c. 1 + alpha * c / \<bar>min_list c_p\<bar>) c_p"
  have xs2: "x_star = map2 (*) x ?xt"
    unfolding xs using len by (intro matvec_diag) simp
  have l: "length x_star = length x" unfolding xs2 using len by simp
  have "0 < x_star ! i" if "i < length x_star" for i
  proof -
    have i: "i < length x" "i < length c_p" using that l len by simp_all
    have "0 < x ! i" using pos i(1) by simp
    moreover have "0 < ?xt ! i"
      using x_tilda_positive[OF a _ v, of "c_p ! i"] i(2) by simp
    ultimately show ?thesis unfolding xs2 using i by simp
  qed
  then have "\<forall>a \<in> set x_star. 0 < a" by (auto simp: in_set_conv_nth)
  with l show ?thesis by blast
qed

subsection \<open>A run of \<^verbatim>\<open>method\<close> that never ends\<close>


















subsection \<open>The solvers on the store compute what the functions compute\<close>

text \<open>
  With the arguments in the store, a call on the store ends with the outcome of the
  function on the arrays read, and runs forever when the function does.
\<close>

lemma read_append:
  "r < length s \<Longrightarrow> read_vec (s @ t) r = read_vec s r"
  "r < length s \<Longrightarrow> read_mat (s @ t) r = read_mat s r"
  by (simp_all add: read_vec_def read_mat_def nth_append)

lemma read_problem_append:
  "C_ref < length s \<Longrightarrow> A_ref < length s \<Longrightarrow>
   read_problem (s @ t) C_ref A_ref = read_problem s C_ref A_ref"
  unfolding read_problem_def by (simp only: read_append)

lemma read_iterate_new: "read_iterate (s @ [array_of x]) (length s) = Inr x"
  by (cases x) (simp_all add: read_iterate_def array_of_def)

lemma method_loop_st_sound:
  assumes "method_loop_st alpha eps C_ref A_ref x_ref k p s = Some y"
  shows "\<forall>C A x. C_ref < length s \<and> A_ref < length s
            \<and> read_problem s C_ref A_ref = Inr (C, A) \<and> read_iterate s x_ref = Inr x
          \<longrightarrow> method_loop alpha eps C A x k p = Some (fst y)"
proof (rule method_loop_st.raw_induct[
        where P = "\<lambda>alpha eps C_ref A_ref x_ref k p s y.
           \<forall>C A x. C_ref < length s \<and> A_ref < length s
              \<and> read_problem s C_ref A_ref = Inr (C, A) \<and> read_iterate s x_ref = Inr x
            \<longrightarrow> method_loop alpha eps C A x k p = Some (fst y)",
        OF _ assms], goal_cases)
  case (1 f alpha eps C_ref A_ref x_ref counter printed s y)
  show ?case
  proof (intro allI impI, elim conjE)
    fix C A x
    assume r: "C_ref < length s" "A_ref < length s"
       and p: "read_problem s C_ref A_ref = Inr (C, A)" and x: "read_iterate s x_ref = Inr x"
    show "method_loop alpha eps C A x counter printed = Some (fst y)"
    proof (cases "method_step alpha eps C A x (counter + 1)")
      case (Inl e)
      with p x 1(2) have "y = ((printed, Inl e), s)" by auto
      with method_loop_Inl[OF Inl] show ?thesis by simp
    next
      case st: (Inr res)
      obtain out st' where res: "res = (out, st')" by (cases res)
      show ?thesis
      proof (cases st')
        case (Inl r)
        with p x st res 1(2) have "y = ((printed @ out, Inr r), s)" by auto
        with method_loop_stop[OF st[unfolded res Inl]] show ?thesis by simp
      next
        case (Inr x_star)
        with p x st res 1(2)
        have "f alpha eps C_ref A_ref (length s) (counter + 1) (printed @ out)
                (s @ [array_of x_star]) = Some y"
          by simp
        from 1(1)[OF this, rule_format, of C A x_star] r p
        have "method_loop alpha eps C A x_star (counter + 1) (printed @ out) = Some (fst y)"
          by (simp add: read_problem_append read_iterate_new)
        with method_loop_continue[OF st[unfolded res Inr]] show ?thesis by simp
      qed
    qed
  qed
qed

lemma method_loop_st_complete:
  assumes "method_loop alpha eps C A x k p = Some r"
  shows "\<forall>C_ref A_ref x_ref s. C_ref < length s \<and> A_ref < length s
            \<and> read_problem s C_ref A_ref = Inr (C, A) \<and> read_iterate s x_ref = Inr x
          \<longrightarrow> (\<exists>s'. method_loop_st alpha eps C_ref A_ref x_ref k p s = Some (r, s'))"
proof (rule method_loop_induct[OF assms,
        where P = "\<lambda>alpha eps C A x k p r.
           \<forall>C_ref A_ref x_ref s. C_ref < length s \<and> A_ref < length s
              \<and> read_problem s C_ref A_ref = Inr (C, A) \<and> read_iterate s x_ref = Inr x
            \<longrightarrow> (\<exists>s'. method_loop_st alpha eps C_ref A_ref x_ref k p s = Some (r, s'))"],
       goal_cases)
  case (1 f alpha eps C A x counter printed y)
  show ?case
  proof (intro allI impI, elim conjE)
    fix C_ref A_ref x_ref s
    assume r: "C_ref < length s" "A_ref < length s"
       and p: "read_problem s C_ref A_ref = Inr (C, A)" and x: "read_iterate s x_ref = Inr x"
    show "\<exists>s'. method_loop_st alpha eps C_ref A_ref x_ref counter printed s = Some (y, s')"
    proof (cases "method_step alpha eps C A x (counter + 1)")
      case (Inl e)
      with p x 1(2) show ?thesis by (subst method_loop_st.simps) auto
    next
      case st: (Inr res)
      obtain out st' where res: "res = (out, st')" by (cases res)
      show ?thesis
      proof (cases st')
        case (Inl r)
        with p x st res 1(2) show ?thesis by (subst method_loop_st.simps) auto
      next
        case (Inr x_star)
        with st res 1(2) have "f alpha eps C A x_star (counter + 1) (printed @ out) = Some y"
          by simp
        from 1(1)[OF this, rule_format, of C_ref "s @ [array_of x_star]" A_ref "length s"] r p
        obtain s' where
          "method_loop_st alpha eps C_ref A_ref (length s) (counter + 1) (printed @ out)
             (s @ [array_of x_star]) = Some (y, s')"
          by (auto simp: read_problem_append read_iterate_new)
        with Inr st res p x show ?thesis by (subst method_loop_st.simps) simp
      qed
    qed
  qed
qed

lemma method_loop_st_outcome:
  assumes "C_ref < length s" "A_ref < length s"
      and "read_problem s C_ref A_ref = Inr (C, A)" and "read_iterate s x_ref = Inr x"
  shows "map_option fst (method_loop_st alpha eps C_ref A_ref x_ref k p s)
           = method_loop alpha eps C A x k p"
proof (cases "method_loop_st alpha eps C_ref A_ref x_ref k p s")
  case (Some y)
  from method_loop_st_sound[OF Some] assms Some show ?thesis by simp
next
  case None
  show ?thesis
  proof (cases "method_loop alpha eps C A x k p")
    case (Some r)
    from method_loop_st_complete[OF Some] assms None show ?thesis by fastforce
  next
    case None': None
    with None show ?thesis by simp
  qed
qed

lemma method_st_outcome:
  assumes "x0_ref < length s" "b_ref < length s" "C_ref < length s" "A_ref < length s"
      and "s ! x0_ref = Arr1 x0" "s ! b_ref = Arr1 b" "s ! C_ref = Arr1 C" "s ! A_ref = Arr2 A"
  shows "map_option fst (method_st x0_ref alpha eps b_ref C_ref A_ref s)
           = method_py x0 alpha eps b C A"
proof -
  have rd: "read_mat s A_ref = Inr A" "read_vec s x0_ref = Inr x0" "read_vec s b_ref = Inr b"
    using assms by (simp_all add: read_mat_def read_vec_def)
  have p: "read_problem (s @ [Arr1 x0]) C_ref A_ref = Inr (C, A)"
    using assms by (simp add: read_problem_def read_mat_def read_vec_def nth_append)
  have x: "read_iterate (s @ [Arr1 x0]) (length s) = Inr (Finite x0)"
    by (simp add: read_iterate_def)
  have l: "map_option fst (method_loop_st alpha eps C_ref A_ref (length s) 0 [] (s @ [Arr1 x0]))
             = method_loop alpha eps C A (Finite x0) 0 []"
    using assms(3,4) by (intro method_loop_st_outcome p x) simp_all
  show ?thesis
    unfolding method_st_def method_py_def rd
    using l by (auto split: sum.splits bool.splits)
qed

text \<open>The simplex loop on the store ends as the loop on the tableau does, with the
  final tableau at \<open>t_ref\<close>.\<close>

lemma simplex_loop_st_sound:
  assumes "simplex_loop_st m t_ref s = Some y"
  shows "\<forall>t. t_ref < length s \<and> s ! t_ref = Arr2 t \<longrightarrow>
           (case fst y of
              Inl e \<Rightarrow> simplex_loop m t = Some (Inl e)
            | Inr True \<Rightarrow> (\<exists>t'. simplex_loop m t = Some (Inr (Some t')) \<and> snd y = s[t_ref := Arr2 t'])
            | Inr False \<Rightarrow> simplex_loop m t = Some (Inr None))"
proof (rule simplex_loop_st.raw_induct[
        where P = "\<lambda>m t_ref s y. \<forall>t. t_ref < length s \<and> s ! t_ref = Arr2 t \<longrightarrow>
           (case fst y of
              Inl e \<Rightarrow> simplex_loop m t = Some (Inl e)
            | Inr True \<Rightarrow> (\<exists>t'. simplex_loop m t = Some (Inr (Some t')) \<and> snd y = s[t_ref := Arr2 t'])
            | Inr False \<Rightarrow> simplex_loop m t = Some (Inr None))",
        OF _ assms], goal_cases)
  case (1 f m t_ref s y)
  show ?case
  proof (intro allI impI, elim conjE)
    fix t
    assume r: "t_ref < length s" and t: "s ! t_ref = Arr2 t"
    have rd: "read_mat s t_ref = Inr t" using t by (simp add: read_mat_def)
    have upd: "s[t_ref := Arr2 t] = s" using t r by (metis list_update_id)
    show "case fst y of
              Inl e \<Rightarrow> simplex_loop m t = Some (Inl e)
            | Inr True \<Rightarrow> (\<exists>t'. simplex_loop m t = Some (Inr (Some t')) \<and> snd y = s[t_ref := Arr2 t'])
            | Inr False \<Rightarrow> simplex_loop m t = Some (Inr None)"
    proof (cases "simplex_step m t")
      case (Inl e)
      with rd 1(2) have "y = (Inl e, s)" by auto
      with Inl show ?thesis by (simp add: simplex_loop.simps)
    next
      case st: (Inr st)
      show ?thesis
      proof (cases st)
        case Optimal
        with rd st 1(2) have "y = (Inr True, s)" by auto
        with Optimal st upd show ?thesis by (simp add: simplex_loop.simps)
      next
        case UnboundedStop
        with rd st 1(2) have "y = (Inr False, s)" by auto
        with UnboundedStop st show ?thesis by (simp add: simplex_loop.simps)
      next
        case (Pivoted u)
        with rd st 1(2) have "f m t_ref (s[t_ref := Arr2 u]) = Some y" by simp
        from 1(1)[OF this, rule_format, of u] r
        have ih: "case fst y of
              Inl e \<Rightarrow> simplex_loop m u = Some (Inl e)
            | Inr True \<Rightarrow> (\<exists>t'. simplex_loop m u = Some (Inr (Some t'))
                              \<and> snd y = (s[t_ref := Arr2 u])[t_ref := Arr2 t'])
            | Inr False \<Rightarrow> simplex_loop m u = Some (Inr None)"
          by simp
        have eq: "simplex_loop m t = simplex_loop m u"
          using st Pivoted by (subst simplex_loop.simps) simp
        from ih show ?thesis unfolding eq by (simp split: sum.splits bool.splits)
      qed
    qed
  qed
qed

lemma simplex_loop_st_complete:
  assumes "simplex_loop m t = Some r"
  shows "\<forall>t_ref s. t_ref < length s \<and> s ! t_ref = Arr2 t \<longrightarrow>
           (\<exists>y. simplex_loop_st m t_ref s = Some y)"
proof (rule simplex_loop.raw_induct[
        where P = "\<lambda>m t r. \<forall>t_ref s. t_ref < length s \<and> s ! t_ref = Arr2 t \<longrightarrow>
           (\<exists>y. simplex_loop_st m t_ref s = Some y)",
        OF _ assms], goal_cases)
  case (1 f m t r)
  show ?case
  proof (intro allI impI, elim conjE)
    fix t_ref s
    assume r: "t_ref < length s" and t: "s ! t_ref = Arr2 t"
    have rd: "read_mat s t_ref = Inr t" using t by (simp add: read_mat_def)
    show "\<exists>y. simplex_loop_st m t_ref s = Some y"
    proof (cases "simplex_step m t")
      case (Inl e)
      with rd show ?thesis by (subst simplex_loop_st.simps) simp
    next
      case st: (Inr st)
      show ?thesis
      proof (cases st)
        case Optimal
        with rd st show ?thesis by (subst simplex_loop_st.simps) simp
      next
        case UnboundedStop
        with rd st show ?thesis by (subst simplex_loop_st.simps) simp
      next
        case (Pivoted u)
        with st 1(2) have "f m u = Some r" by simp
        from 1(1)[OF this, rule_format, of t_ref "s[t_ref := Arr2 u]"] r
        obtain y where "simplex_loop_st m t_ref (s[t_ref := Arr2 u]) = Some y" by auto
        with rd st Pivoted show ?thesis by (subst simplex_loop_st.simps) simp
      qed
    qed
  qed
qed

lemma simplex_method_manual_st_unfold:
  assumes "read_problem s C_ref A_ref = Inr (C, A)" and "read_vec s b_ref = Inr b"
      and "build_tableau C A b = Inr t"
      and "s2 = (s @ [Arr2 (replicate (length b + 1) (replicate (length C + length b + 1) 0))])
                   [length s := Arr2 t]"
  shows "simplex_method_manual_st C_ref A_ref b_ref s =
           (case simplex_loop_st (length b) (length s) s2 of
              None \<Rightarrow> None
            | Some (Inl e, s3) \<Rightarrow> Some (Inl e, s3)
            | Some (Inr False, s3) \<Rightarrow> Some (Inr Unbounded, s3)
            | Some (Inr True, s3) \<Rightarrow>
                (case read_mat s3 (length s) of
                   Inl e \<Rightarrow> Some (Inl e, s3)
                 | Inr t \<Rightarrow>
                     let solution = extract_solution (length C) t
                     in Some (Inr (Solution solution (last (last t))), s3 @ [Arr1 solution])))"
  unfolding simplex_method_manual_st_def Let_def assms(4)
  by (simp only: assms(1,2,3) sum.case prod.case)

lemma simplex_method_manual_st_outcome:
  assumes "C_ref < length s" "A_ref < length s" "b_ref < length s"
      and "s ! C_ref = Arr1 C" "s ! A_ref = Arr2 A" "s ! b_ref = Arr1 b"
  shows "map_option fst (simplex_method_manual_st C_ref A_ref b_ref s)
           = simplex_method_manual C A b"
proof -
  have rd: "read_problem s C_ref A_ref = Inr (C, A)" "read_vec s b_ref = Inr b"
    using assms by (simp_all add: read_problem_def read_mat_def read_vec_def)
  show ?thesis
  proof (cases "build_tableau C A b")
    case (Inl e)
    with rd show ?thesis
      by (simp add: simplex_method_manual_st_def simplex_method_manual_def Let_def)
  next
    case (Inr t)
    define s2 where "s2 = (s @ [Arr2 (replicate (length b + 1) (replicate (length C + length b + 1) 0))])
                   [length s := Arr2 t]"
    have r2: "length s < length s2" "s2 ! length s = Arr2 t" by (simp_all add: s2_def)
    note unf = simplex_method_manual_st_unfold[OF rd Inr s2_def]
    have pure: "simplex_method_manual C A b =
          map_option
            (map_sum id
               (\<lambda>r. case r of
                      None \<Rightarrow> Unbounded
                    | Some t \<Rightarrow> Solution (extract_solution (length C) t) (last (last t))))
            (simplex_loop (length b) t)"
      using Inr by (simp add: simplex_method_manual_def)
    show ?thesis
    proof (cases "simplex_loop_st (length b) (length s) s2")
      case None
      have "simplex_loop (length b) t = None"
      proof (cases "simplex_loop (length b) t")
        case (Some r)
        from simplex_loop_st_complete[OF Some] r2 None show ?thesis by fastforce
      qed simp
      then show ?thesis by (simp add: unf pure None)
    next
      case (Some y)
      obtain res s3 where y: "y = (res, s3)" by (cases y)
      from simplex_loop_st_sound[OF Some[unfolded y], rule_format, of t] r2
      have snd: "case res of
              Inl e \<Rightarrow> simplex_loop (length b) t = Some (Inl e)
            | Inr True \<Rightarrow> (\<exists>t'. simplex_loop (length b) t = Some (Inr (Some t'))
                              \<and> s3 = s2[length s := Arr2 t'])
            | Inr False \<Rightarrow> simplex_loop (length b) t = Some (Inr None)"
        by (auto split: sum.splits bool.splits)
      show ?thesis
      proof (cases res)
        case (Inl e)
        with snd have "simplex_loop (length b) t = Some (Inl e)" by simp
        then show ?thesis by (simp add: unf pure Some y Inl)
      next
        case res: (Inr fin)
        show ?thesis
        proof (cases fin)
          case False
          with res snd have "simplex_loop (length b) t = Some (Inr None)" by simp
          then show ?thesis using False by (simp add: unf pure Some y res)
        next
          case True
          with res snd obtain t' where
            t': "simplex_loop (length b) t = Some (Inr (Some t'))"
                "s3 = s2[length s := Arr2 t']" by auto
          have "read_mat s3 (length s) = Inr t'"
            unfolding t'(2) using r2(1) by (simp add: read_mat_def)
          then show ?thesis using True by (simp add: unf pure Some y res t'(1) Let_def)
        qed
      qed
    qed
  qed
qed

subsection \<open>The solvers do not write to their arguments\<close>

lemma method_loop_st_frame:
  assumes "method_loop_st alpha eps C_ref A_ref x_ref k p s = Some y"
  shows "take (length s) (snd y) = s"
proof (rule method_loop_st.raw_induct[
        where P = "\<lambda>alpha eps C_ref A_ref x_ref k p s y. take (length s) (snd y) = s",
        OF _ assms], goal_cases)
  case (1 f alpha eps C_ref A_ref x_ref counter printed s y)
  show ?case
  proof (cases "read_problem s C_ref A_ref")
    case (Inl e)
    with 1(2) show ?thesis by auto
  next
    case (Inr CA)
    obtain C A where CA: "CA = (C, A)" by (cases CA)
    show ?thesis
    proof (cases "read_iterate s x_ref")
      case (Inl e)
      with Inr CA 1(2) show ?thesis by auto
    next
      case x: (Inr x)
      show ?thesis
      proof (cases "method_step alpha eps C A x (counter + 1)")
        case (Inl e)
        with Inr CA x 1(2) show ?thesis by auto
      next
        case st: (Inr res)
        obtain out st' where res: "res = (out, st')" by (cases res)
        show ?thesis
        proof (cases st')
          case (Inl r)
          with Inr CA x st res 1(2) show ?thesis by auto
        next
          case (Inr x_star)
          with \<open>read_problem s C_ref A_ref = Inr CA\<close> CA x st res 1(2)
          have "f alpha eps C_ref A_ref (length s) (counter + 1) (printed @ out)
                  (s @ [array_of x_star]) = Some y"
            by simp
          from 1(1)[OF this]
          have "take (length (s @ [array_of x_star])) (snd y) = s @ [array_of x_star]" .
          then have "take (length s) (take (length s + 1) (snd y))
                       = take (length s) (s @ [array_of x_star])"
            by simp
          then show ?thesis by (simp add: min_def)
        qed
      qed
    qed
  qed
qed

lemma simplex_loop_st_frame:
  assumes "simplex_loop_st m t_ref s = Some y"
  shows "length (snd y) = length s \<and> (\<forall>a. a \<noteq> t_ref \<longrightarrow> snd y ! a = s ! a)"
proof (rule simplex_loop_st.raw_induct[
        where P = "\<lambda>m t_ref s y. length (snd y) = length s \<and> (\<forall>a. a \<noteq> t_ref \<longrightarrow> snd y ! a = s ! a)",
        OF _ assms], goal_cases)
  case (1 f m t_ref s y)
  show ?case
  proof (cases "read_mat s t_ref")
    case (Inl e)
    with 1(2) show ?thesis by auto
  next
    case t: (Inr tableau)
    show ?thesis
    proof (cases "simplex_step m tableau")
      case (Inl e)
      with t 1(2) show ?thesis by auto
    next
      case st: (Inr st)
      show ?thesis
      proof (cases st)
        case Optimal
        with t st 1(2) show ?thesis by auto
      next
        case UnboundedStop
        with t st 1(2) show ?thesis by auto
      next
        case (Pivoted t')
        with t st 1(2) have "f m t_ref (s[t_ref := Arr2 t']) = Some y" by simp
        from 1(1)[OF this] show ?thesis by simp
      qed
    qed
  qed
qed

lemma method_st_frame:
  assumes "method_st x0_ref alpha eps b_ref C_ref A_ref s = Some (r, s')"
  shows "length s \<le> length s' \<and> (\<forall>a < length s. s' ! a = s ! a)"
proof -
  have "take (length s) s' = s"
  proof (cases "\<exists>x0. method_loop_st alpha eps C_ref A_ref (length s) 0 [] (s @ [Arr1 x0]) = Some (r, s')")
    case True
    then obtain x0 where
      "method_loop_st alpha eps C_ref A_ref (length s) 0 [] (s @ [Arr1 x0]) = Some (r, s')" by blast
    from method_loop_st_frame[OF this]
    have "take (length s + 1) s' = s @ [Arr1 x0]" by simp
    then have "take (length s) (take (length s + 1) s') = take (length s) (s @ [Arr1 x0])"
      by simp
    then show ?thesis by (simp add: min_def)
  next
    case False
    with assms have "s' = s"
      by (auto simp: method_st_def split: sum.splits if_splits bool.splits)
    then show ?thesis by simp
  qed
  then have "length s \<le> length s'" "\<And>a. a < length s \<Longrightarrow> s' ! a = s ! a"
    by (metis length_take min.cobounded2 min.commute nat_le_linear take_all, metis nth_take)
  then show ?thesis by blast
qed

lemma simplex_method_manual_st_frame:
  assumes "simplex_method_manual_st C_ref A_ref b_ref s = Some (r, s')"
  shows "length s \<le> length s' \<and> (\<forall>a < length s. s' ! a = s ! a)"
proof (cases "read_problem s C_ref A_ref")
  case (Inl e)
  with assms show ?thesis by (simp add: simplex_method_manual_st_def)
next
  case (Inr CA)
  obtain C A where CA: "CA = (C, A)" by (cases CA)
  show ?thesis
  proof (cases "read_vec s b_ref")
    case (Inl e)
    with Inr CA assms show ?thesis by (simp add: simplex_method_manual_st_def)
  next
    case b: (Inr b)
    let ?s1 = "s @ [Arr2 (replicate (length b + 1) (replicate (length C + length b + 1) 0))]"
    show ?thesis
    proof (cases "build_tableau C A b")
      case (Inl e)
      with Inr CA b assms have "s' = ?s1"
        by (simp add: simplex_method_manual_st_def Let_def)
      then show ?thesis by (simp add: nth_append)
    next
      case t: (Inr tableau)
      let ?s1' = "?s1[length s := Arr2 tableau]"
      from Inr CA b t assms obtain y where
        y: "simplex_loop_st (length b) (length s) ?s1' = Some y"
        by (cases "simplex_loop_st (length b) (length s) ?s1'")
           (auto simp: simplex_method_manual_st_def Let_def)
      from simplex_loop_st_frame[OF y]
      have fr: "length (snd y) = length s + 1" "\<And>a. a < length s \<Longrightarrow> snd y ! a = s ! a"
        by (simp_all add: nth_append)
      from Inr CA b t y assms have "s' = snd y \<or> (\<exists>v. s' = snd y @ [Arr1 v])"
        by (cases y)
           (auto simp: simplex_method_manual_st_def Let_def
                 split: sum.splits bool.splits)
      then show ?thesis using fr by (auto simp: nth_append)
    qed
  qed
qed

text \<open>
  Claim C10. Whenever a call of \<^verbatim>\<open>method\<close> or of \<^verbatim>\<open>simplex_method_manual\<close>
  ends, by a return or by an exception, every array that was in the store before
  the call is in it after the call, at the same address and with the same value.
  In particular the arrays \<open>C\<close>, \<open>A\<close>, \<open>b\<close> and \<open>x0\<close> passed to the call are
  unchanged: \<^verbatim>\<open>method\<close> iterates on a copy of \<open>x0\<close> and on new arrays, and
  \<^verbatim>\<open>simplex_method_manual\<close> pivots on a tableau of its own.
\<close>

theorem solvers_leave_inputs_unchanged:
  "(method_st x0_ref alpha eps b_ref C_ref A_ref s = Some (r, s') \<longrightarrow>
      length s \<le> length s' \<and> (\<forall>a < length s. s' ! a = s ! a))
   \<and> (simplex_method_manual_st C_ref A_ref b_ref s = Some (r', s'') \<longrightarrow>
      length s \<le> length s'' \<and> (\<forall>a < length s. s'' ! a = s ! a))"
  using method_st_frame simplex_method_manual_st_frame by blast

lemmas store_eval = method_st_def simplex_method_manual_st_def read_problem_def read_vec_def
  read_mat_def read_iterate_def

theorem solvers_leave_inputs_unchanged_witness:
  "method_st 0 (1 / 2) 1 1 2 3 [Arr1 [1, 1], Arr1 [2], Arr1 [1, 0], Arr2 [[1, 1]]]
     = Some (([], Inr (Converged [3 / 2, 1 / 2] (3 / 2))),
             [Arr1 [1, 1], Arr1 [2], Arr1 [1, 0], Arr2 [[1, 1]], Arr1 [1, 1]])
   \<and> simplex_method_manual_st 0 1 2 [Arr1 [2, 3 / 2], Arr2 [[1, 1]], Arr1 [3]]
     = Some (Inr (Solution [3, 3] 6),
             [Arr1 [2, 3 / 2], Arr2 [[1, 1]], Arr1 [3],
              Arr2 [[1, 1, 1, 3], [0, 1 / 2, 2, 6]], Arr1 [3, 3]])
   \<and> [Arr1 [1, 1], Arr1 [2], Arr1 [1, 0], Arr2 [[1, 1]], Arr1 [1, 1]] ! 0 = Arr1 [1, 1]
   \<and> [Arr1 [2, 3 / 2], Arr2 [[1, 1]], Arr1 [3],
        Arr2 [[1, 1, 1, 3], [0, 1 / 2, 2, 6]], Arr1 [3, 3]] ! 1 = Arr2 [[1, 1]]"
proof -
  let ?S = "[Arr1 [1, 1], Arr1 [2], Arr1 [1, 0], Arr2 [[1, 1]]]"
  let ?S' = "[Arr1 [1, 1], Arr1 [2], Arr1 [1, 0], Arr2 [[1, 1]], Arr1 [1, 1]]"
  let ?T = "[Arr1 [2, 3 / 2], Arr2 [[1, 1]], Arr1 [3]]"
  let ?T' = "[Arr1 [2, 3 / 2], Arr2 [[1, 1]], Arr1 [3],
              Arr2 [[1, 1, 1, 3], [0, 1 / 2, 2, 6]], Arr1 [3, 3]]"
  have st: "method_step (1 / 2) 1 [1, 0] [[1, 1]] (Finite [1, 1]) (Suc 0)
              = Inr ([], Inl (Converged [3 / 2, 1 / 2] (3 / 2)))"
    by (simp add: method_eval)
  have "method_loop_st (1 / 2) 1 2 3 (Suc (Suc (Suc (Suc 0)))) 0 [] ?S'
          = Some (([], Inr (Converged [3 / 2, 1 / 2] (3 / 2))), ?S')"
    by (subst method_loop_st.simps)
       (simp add: read_problem_def read_vec_def read_mat_def read_iterate_def st)
  then have m: "method_st 0 (1 / 2) 1 1 2 3 ?S
                  = Some (([], Inr (Converged [3 / 2, 1 / 2] (3 / 2))), ?S')"
    by (simp add: store_eval matvec_def dot_def)
  have bt: "build_tableau [2, 3 / 2] [[1, 1]] [3] = Inr [[1, 1, 1, 3], [- 2, - (3 / 2), 0, 0]]"
    by (simp add: build_tableau_def broadcast_to_def identity_def)
  have s1: "simplex_step (Suc 0) [[1, 1, 1, 3], [- 2, - (3 / 2), 0, 0]]
              = Inr (Pivoted [[1, 1, 1, 3], [0, 1 / 2, 2, 6]])"
    by (simp add: simplex_eval)
  have s2: "simplex_step (Suc 0) [[1, 1, 1, 3], [0, 1 / 2, 2, 6]] = Inr Optimal"
    by (simp add: simplex_eval)
  have l2: "simplex_loop_st (Suc 0) (Suc (Suc (Suc 0))) [Arr1 [2, 3 / 2], Arr2 [[1, 1]], Arr1 [3],
                                  Arr2 [[1, 1, 1, 3], [0, 1 / 2, 2, 6]]]
              = Some (Inr True, [Arr1 [2, 3 / 2], Arr2 [[1, 1]], Arr1 [3],
                                  Arr2 [[1, 1, 1, 3], [0, 1 / 2, 2, 6]]])"
    by (subst simplex_loop_st.simps) (simp add: read_mat_def s2)
  have l1: "simplex_loop_st (Suc 0) (Suc (Suc (Suc 0))) [Arr1 [2, 3 / 2], Arr2 [[1, 1]], Arr1 [3],
                                  Arr2 [[1, 1, 1, 3], [- 2, - (3 / 2), 0, 0]]]
              = Some (Inr True, [Arr1 [2, 3 / 2], Arr2 [[1, 1]], Arr1 [3],
                                  Arr2 [[1, 1, 1, 3], [0, 1 / 2, 2, 6]]])"
    by (subst simplex_loop_st.simps) (simp add: read_mat_def s1 l2)
  have x: "extract_solution (Suc (Suc 0)) [[1, 1, 1, 3], [0, 1 / 2, 2, 6]] = [3, 3]"
    by (simp add: simplex_eval)
  have t: "simplex_method_manual_st 0 1 2 ?T = Some (Inr (Solution [3, 3] 6), ?T')"
    by (simp add: store_eval bt l1 x Let_def)
  from solvers_leave_inputs_unchanged[where ?x0_ref = 0 and alpha = "1 / 2" and eps = 1
         and ?b_ref = 1 and ?C_ref = 2 and ?A_ref = 3 and s = ?S and s' = ?S'] m
  have a: "\<forall>a < length ?S. ?S' ! a = ?S ! a" by blast
  from solvers_leave_inputs_unchanged[where ?C_ref = 0 and ?A_ref = 1 and ?b_ref = 2
         and s = ?T and s'' = ?T'] t
  have b: "\<forall>a < length ?T. ?T' ! a = ?T ! a" by blast
  from a b have "(\<forall>a < length ?S. ?S' ! a = ?S ! a) \<and> (\<forall>a < length ?T. ?T' ! a = ?T ! a)"
    by blast
  then have "?S' ! 0 = ?S ! 0" "?T' ! 1 = ?T ! 1" by simp_all
  with m t show ?thesis by simp
qed

end
